theory Spec2Isabelle
  imports Main
begin

section \<open>The browser connection and page pool manager\<close>

text \<open>
  A shallow embedding of \<^verbatim>\<open>packages/browser/src/browser.ts\<close> (class
  \<^verbatim>\<open>BrowserManager\<close>). Every method becomes a function on an explicit state.
  The state holds the manager's own data (the \<^verbatim>\<open>browserInstances\<close> map and the
  \<^verbatim>\<open>BrowserInstance\<close> objects it refers to) and the part of the outside world the
  manager talks to: the Playwright browsers and pages, the environment variable, and the
  log.

  Playwright is not part of the repository. Whether one of its fallible calls succeeds
  is decided by an \<^emph>\<open>oracle\<close> carried in the state: an arbitrary function of the calls
  made so far and of the call being made. Every theorem below holds for every oracle.
  Each call, each sleep and each log line is appended to the \<^emph>\<open>trace\<close>, so that
  side effects can be observed.

  Each method is modelled as running from its first line to its return. Two methods
  are also given in parts, split where they \<^verbatim>\<open>await\<close>, so that calls that overlap
  can be put one between the parts of the other: \<^verbatim>\<open>initializeConnections\<close> and
  \<^verbatim>\<open>returnPage\<close>.
\<close>

subsection \<open>Handles, calls and log lines\<close>

type_synonym Page = nat
type_synonym Browser = nat
type_synonym InstRef = nat

datatype LogLevel = Info | Warn | Error

datatype LogMsg =
    FailedToConnect string
  | ConnectedWithPages string nat
  | FailedToCreateAfterReset
  | NoHealthyInstances
  | FailedToCreateFromInstance string
  | AllInstancesFailed
  | ErrorReturningPage
  | ErrorClosingOrphanedPage
  | InstanceUnhealthy string
  | AttemptingReconnect string nat
  | SuccessfullyReconnected string
  | ReconnectAttemptFailed nat string nat
  | CleaningUp

datatype Call =
    Connect string
  | NewPage Browser
  | Goto Page string "nat option"
  | Evaluate Page
  | ClosePage Page
  | CloseBrowser Browser
  | IsConnected Browser
  | Sleep nat
  | Log LogLevel LogMsg

datatype error =
    NoEndpointsConfigured
  | AllConnectionsFailed
  | ConnectError string
  | NewPageError Browser
  | GotoError Page
  | EvaluateError Page
  | ClosePageError Page
  | CloseBrowserError Browser
  | BrowserDisconnected
  | InstanceNotProvided
  | PageNotOwned

subsection \<open>The data model\<close>

text \<open>
  \<^verbatim>\<open>interface BrowserInstance\<close> (lines 5 to 12). \<^verbatim>\<open>lastHealthCheck\<close> is a
  \<^verbatim>\<open>Date\<close>; the model's time is the number of trace entries so far.
\<close>

record BrowserInstance =
  browser :: Browser
  pagePool :: "Page list"
  endpoint :: string
  healthy :: bool
  lastHealthCheck :: nat
  markedForShutdown :: "bool option"

text \<open>
  What Playwright knows about a page: the browser it was opened from
  (\<^verbatim>\<open>page.context().browser()\<close>), whether it is closed (\<^verbatim>\<open>page.isClosed()\<close>), the
  options of \<^verbatim>\<open>browser.newPage\<close> and what \<^verbatim>\<open>setupCoreSecurityControls\<close> installed.
\<close>

record PageInfo =
  pageBrowser :: Browser
  pageClosed :: bool
  acceptDownloads :: bool
  serviceWorkers :: string
  userAgent :: string
  dismissesDialogs :: bool
  closesPopups :: bool
  defaultTimeout :: "nat option"

record BrowserInfo =
  browserEndpoint :: string
  browserClosed :: bool

text \<open>
  The state. Pages and browsers are named by their index in \<open>pages\<close> and
  \<open>browsers\<close>, so a newly created one never equals an existing one.
  \<^verbatim>\<open>BrowserInstance\<close> objects live in \<open>heap\<close> and are named by reference, because
  the source mutates them through local variables. \<open>browserInstances\<close> is the
  JavaScript \<^verbatim>\<open>Map\<close>: its entries in insertion order, a deleted entry leaving an empty
  slot behind, which is what an iterator that is live during the deletion steps over.
\<close>

record State =
  BROWSER_ENDPOINTS :: "string option"
  pages :: "PageInfo list"
  browsers :: "BrowserInfo list"
  outcome :: "Call list \<Rightarrow> Call \<Rightarrow> bool"
  trace :: "Call list"
  heap :: "InstRef \<Rightarrow> BrowserInstance"
  nextRef :: InstRef
  browserInstances :: "(string \<times> InstRef) option list"

definition PAGE_POOL_SIZE :: nat where
  "PAGE_POOL_SIZE = 10"

definition HEALTH_CHECK_INTERVAL :: nat where
  "HEALTH_CHECK_INTERVAL = 5000"

definition INITIAL_RECONNECT_DELAY :: nat where
  "INITIAL_RECONNECT_DELAY = 1000"

definition MAX_RECONNECT_MULTIPLIER :: nat where
  "MAX_RECONNECT_MULTIPLIER = 3"

definition DEFAULT_PAGE_TIMEOUT :: nat where
  "DEFAULT_PAGE_TIMEOUT = 5000"

definition USER_AGENT :: string where
  "USER_AGENT = ''Mozilla/5.0 (Windows NT 10.0; Win64; x64) AppleWebKit/537.36 (KHTML, like Gecko) Chrome/91.0.4472.124 Safari/537.36''"

subsection \<open>The JavaScript Map\<close>

type_synonym InstanceMap = "(string \<times> InstRef) option list"

fun map_entries :: "InstanceMap \<Rightarrow> (string \<times> InstRef) list" where
  "map_entries [] = []"
| "map_entries (None # m) = map_entries m"
| "map_entries (Some e # m) = e # map_entries m"

definition map_values :: "InstanceMap \<Rightarrow> InstRef list" where
  "map_values m = map snd (map_entries m)"

definition map_size :: "InstanceMap \<Rightarrow> nat" where
  "map_size m = length (map_entries m)"

definition map_get :: "string \<Rightarrow> InstanceMap \<Rightarrow> InstRef option" where
  "map_get k m = map_of (map_entries m) k"

definition map_delete :: "string \<Rightarrow> InstanceMap \<Rightarrow> InstanceMap" where
  "map_delete k m =
     map (\<lambda>slot. case slot of None \<Rightarrow> None
                   | Some (k', v) \<Rightarrow> if k' = k then None else Some (k', v)) m"

definition map_set :: "string \<Rightarrow> InstRef \<Rightarrow> InstanceMap \<Rightarrow> InstanceMap" where
  "map_set k v m =
     (if map_get k m = None then m @ [Some (k, v)]
      else map (\<lambda>slot. case slot of None \<Rightarrow> None
                   | Some (k', v') \<Rightarrow> if k' = k then Some (k, v) else Some (k', v')) m)"

definition map_clear :: "InstanceMap \<Rightarrow> InstanceMap" where
  "map_clear m = map (\<lambda>slot. None) m"

text \<open>
  One step of a map iterator standing at slot \<open>i\<close>: the first non-empty slot from
  \<open>i\<close> on, and the position after it. Entries added while the iterator is live are at
  the end and are still visited.
\<close>

fun first_entry :: "nat \<Rightarrow> InstanceMap \<Rightarrow> ((string \<times> InstRef) \<times> nat) option" where
  "first_entry i [] = None"
| "first_entry i (None # m) = first_entry (Suc i) m"
| "first_entry i (Some e # m) = Some (e, Suc i)"

definition map_next :: "nat \<Rightarrow> InstanceMap \<Rightarrow> ((string \<times> InstRef) \<times> nat) option" where
  "map_next i m = first_entry i (drop i m)"

subsection \<open>The outside world: Playwright, the timer and the logger\<close>

definition emit :: "Call \<Rightarrow> State \<Rightarrow> State" where
  "emit c st = st\<lparr>trace := trace st @ [c]\<rparr>"

definition logger :: "LogLevel \<Rightarrow> LogMsg \<Rightarrow> State \<Rightarrow> State" where
  "logger lvl msg st = emit (Log lvl msg) st"

definition sleep :: "nat \<Rightarrow> State \<Rightarrow> State" where
  "sleep ms st = emit (Sleep ms) st"

text \<open>A fallible call: the oracle decides from the history, the call is recorded.\<close>

definition succeeds :: "Call \<Rightarrow> State \<Rightarrow> bool" where
  "succeeds c st = outcome st (trace st) c"

definition chromium_connect :: "string \<Rightarrow> State \<Rightarrow> (error + Browser) \<times> State" where
  "chromium_connect ep st =
     (if succeeds (Connect ep) st
      then (Inr (length (browsers st)),
            (emit (Connect ep) st)\<lparr>browsers := browsers st @
               [\<lparr>browserEndpoint = ep, browserClosed = False\<rparr>]\<rparr>)
      else (Inl (ConnectError ep), emit (Connect ep) st))"

definition browser_newPage :: "Browser \<Rightarrow> State \<Rightarrow> (error + Page) \<times> State" where
  "browser_newPage b st =
     (if succeeds (NewPage b) st
      then (Inr (length (pages st)),
            (emit (NewPage b) st)\<lparr>pages := pages st @
               [\<lparr>pageBrowser = b, pageClosed = False, acceptDownloads = False,
                 serviceWorkers = ''block'', userAgent = USER_AGENT,
                 dismissesDialogs = False, closesPopups = False,
                 defaultTimeout = None\<rparr>]\<rparr>)
      else (Inl (NewPageError b), emit (NewPage b) st))"

definition browser_isConnected :: "Browser \<Rightarrow> State \<Rightarrow> bool \<times> State" where
  "browser_isConnected b st = (succeeds (IsConnected b) st, emit (IsConnected b) st)"

definition page_goto :: "Page \<Rightarrow> string \<Rightarrow> nat option \<Rightarrow> State \<Rightarrow> (error + unit) \<times> State" where
  "page_goto p url timeout st =
     (if succeeds (Goto p url timeout) st then Inr () else Inl (GotoError p),
      emit (Goto p url timeout) st)"

definition page_evaluate :: "Page \<Rightarrow> State \<Rightarrow> (error + unit) \<times> State" where
  "page_evaluate p st =
     (if succeeds (Evaluate p) st then Inr () else Inl (EvaluateError p),
      emit (Evaluate p) st)"

text \<open>
  \<^verbatim>\<open>page.isClosed()\<close>. A handle that names no page of the world counts as closed.
\<close>

definition page_isClosed :: "Page \<Rightarrow> State \<Rightarrow> bool" where
  "page_isClosed p st = (if p < length (pages st) then pageClosed (pages st ! p) else True)"

text \<open>
  \<^verbatim>\<open>page.close()\<close>: the call is recorded and the page is closed from then on; the
  oracle says whether the returned promise rejects.
\<close>

definition page_close :: "Page \<Rightarrow> State \<Rightarrow> (error + unit) \<times> State" where
  "page_close p st =
     (if succeeds (ClosePage p) st then Inr () else Inl (ClosePageError p),
      (emit (ClosePage p) st)\<lparr>pages := (pages st)[p := (pages st ! p)\<lparr>pageClosed := True\<rparr>]\<rparr>)"

text \<open>\<^verbatim>\<open>browser.close()\<close> closes the browser and every page opened from it.\<close>

definition browser_close :: "Browser \<Rightarrow> State \<Rightarrow> (error + unit) \<times> State" where
  "browser_close b st =
     (if succeeds (CloseBrowser b) st then Inr () else Inl (CloseBrowserError b),
      (emit (CloseBrowser b) st)\<lparr>
         browsers := (browsers st)[b := (browsers st ! b)\<lparr>browserClosed := True\<rparr>],
         pages := map (\<lambda>pg. if pageBrowser pg = b then pg\<lparr>pageClosed := True\<rparr> else pg)
                    (pages st)\<rparr>)"

subsection \<open>Configuration (lines 36 to 41)\<close>

text \<open>
  \<^verbatim>\<open>String.prototype.split(',')\<close>: the pieces between the commas; the empty string
  has one piece, the empty string.
\<close>

fun split_comma :: "string \<Rightarrow> string list" where
  "split_comma [] = [[]]"
| "split_comma (c # cs) =
     (if c = CHR '','' then [] # split_comma cs
      else (case split_comma cs of [] \<Rightarrow> [[c]] | w # ws \<Rightarrow> (c # w) # ws))"

text \<open>
  \<^verbatim>\<open>process.env.BROWSER_ENDPOINTS?.split(',') || []\<close>: an absent variable gives the
  empty list; a present one gives its pieces (an array is never falsy).
\<close>

definition getEndpoints :: "State \<Rightarrow> string list" where
  "getEndpoints st =
     map (\<lambda>endpoint. endpoint)
       (case BROWSER_ENDPOINTS st of None \<Rightarrow> [] | Some s \<Rightarrow> split_comma s)"

subsection \<open>Creating pages (lines 112 to 148)\<close>

definition createBasePage :: "Browser \<Rightarrow> State \<Rightarrow> (error + Page) \<times> State" where
  "createBasePage b st = browser_newPage b st"

definition setupCoreSecurityControls ::
  "Page \<Rightarrow> InstRef option \<Rightarrow> State \<Rightarrow> (error + unit) \<times> State" where
  "setupCoreSecurityControls p inst st =
     (case inst of
        None \<Rightarrow> (Inl InstanceNotProvided, st)
      | Some r \<Rightarrow>
          (Inr (), st\<lparr>pages := (pages st)[p := (pages st ! p)\<lparr>
                      dismissesDialogs := True, closesPopups := True,
                      defaultTimeout := Some DEFAULT_PAGE_TIMEOUT\<rparr>]\<rparr>))"

definition createAndSecurePage ::
  "Browser \<Rightarrow> InstRef option \<Rightarrow> State \<Rightarrow> (error + Page) \<times> State" where
  "createAndSecurePage b inst st =
     (case createBasePage b st of
        (Inl e, st1) \<Rightarrow> (Inl e, st1)
      | (Inr p, st1) \<Rightarrow>
          (case setupCoreSecurityControls p inst st1 of
             (Inl e, st2) \<Rightarrow> (Inl e, st2)
           | (Inr u, st2) \<Rightarrow> (Inr p, st2)))"

subsection \<open>Connecting (lines 43 to 110)\<close>

text \<open>
  The warm-up loop of lines 89 to 94, counting down the iterations that are left.
\<close>

fun warmPool ::
  "nat \<Rightarrow> Browser \<Rightarrow> InstRef \<Rightarrow> Page list \<Rightarrow> State \<Rightarrow> (error + Page list) \<times> State" where
  "warmPool 0 b r pool st = (Inr pool, st)"
| "warmPool (Suc n) b r pool st =
     (case createAndSecurePage b (Some r) st of
        (Inl e, st1) \<Rightarrow> (Inl e, st1)
      | (Inr p, st1) \<Rightarrow> warmPool n b r (pool @ [p]) st1)"

text \<open>The \<^verbatim>\<open>try\<close> block of \<^verbatim>\<open>connectToBrowser\<close> (lines 65 to 100).\<close>

definition connectToBrowser_try :: "string \<Rightarrow> State \<Rightarrow> (error + unit) \<times> State" where
  "connectToBrowser_try ep st =
     (case chromium_connect ep st of
        (Inl e, st1) \<Rightarrow> (Inl e, st1)
      | (Inr b, st1) \<Rightarrow>
          (let r = nextRef st1;
               inst = \<lparr>browser = b, pagePool = [], endpoint = ep, healthy = True,
                       lastHealthCheck = length (trace st1), markedForShutdown = None\<rparr>;
               st2 = st1\<lparr>heap := (heap st1)(r := inst), nextRef := Suc r,
                          browserInstances := map_set ep r (browserInstances st1)\<rparr>
           in (case warmPool PAGE_POOL_SIZE b r [] st2 of
                 (Inl e, st3) \<Rightarrow> (Inl e, st3)
               | (Inr pool, st3) \<Rightarrow>
                   (Inr (), logger Info (ConnectedWithPages ep (length pool))
                      (st3\<lparr>heap := (heap st3)(r := (heap st3 r)\<lparr>pagePool := pool\<rparr>)\<rparr>)))))"

text \<open>
  \<^verbatim>\<open>connectToBrowser\<close>: on any failure the \<^verbatim>\<open>catch\<close> block (lines 101 to 109)
  closes and removes whatever instance the map holds for the endpoint, then rethrows.
\<close>

definition connectToBrowser :: "string \<Rightarrow> State \<Rightarrow> (error + unit) \<times> State" where
  "connectToBrowser ep st =
     (case connectToBrowser_try ep st of
        (Inr u, st1) \<Rightarrow> (Inr (), st1)
      | (Inl e, st1) \<Rightarrow>
          (let st2 = (case map_get ep (browserInstances st1) of
                        None \<Rightarrow> st1
                      | Some r \<Rightarrow>
                          (let st' = snd (browser_close (browser (heap st1 r)) st1)
                           in st'\<lparr>browserInstances := map_delete ep (browserInstances st')\<rparr>))
           in (Inl e, logger Error (FailedToConnect ep) st2)))"

text \<open>The loop of lines 50 to 56: a failed endpoint is logged and skipped.\<close>

fun connectEach :: "string list \<Rightarrow> State \<Rightarrow> State" where
  "connectEach [] st = st"
| "connectEach (ep # eps) st =
     (case connectToBrowser ep st of
        (Inr u, st1) \<Rightarrow> connectEach eps st1
      | (Inl e, st1) \<Rightarrow> connectEach eps (logger Error (FailedToConnect ep) st1))"

definition initializeConnections :: "State \<Rightarrow> (error + unit) \<times> State" where
  "initializeConnections st =
     (let endpoints = getEndpoints st
      in if length endpoints = 0 then (Inl NoEndpointsConfigured, st)
         else (let st1 = connectEach endpoints st
               in if map_size (browserInstances st1) = 0
                  then (Inl AllConnectionsFailed, st1)
                  else (Inr (), st1)))"

subsection \<open>Bringing the connections up, in parts\<close>

text \<open>
  \<^verbatim>\<open>initializeConnections\<close> awaits each \<^verbatim>\<open>connectToBrowser\<close> (line 52), and other calls
  on the manager run while it waits. Its parts: the test of the endpoint list (lines 44
  to 48), one turn of the loop (lines 51 to 55), and the test of the map (lines 58 to
  60). A turn of the loop awaits the world several times itself; two calls whose turns
  alternate as wholes is one of the schedules these awaits allow. Lemma
  \<open>initializeConnections_split\<close> below shows that the parts, run one after the other,
  are \<^verbatim>\<open>initializeConnections\<close>.
\<close>

definition initializeConnections_begin :: "State \<Rightarrow> error + string list" where
  "initializeConnections_begin st =
     (let endpoints = getEndpoints st
      in if length endpoints = 0 then Inl NoEndpointsConfigured else Inr endpoints)"

definition initializeConnections_attempt :: "string \<Rightarrow> State \<Rightarrow> State" where
  "initializeConnections_attempt ep st =
     (case connectToBrowser ep st of
        (Inr u, st1) \<Rightarrow> st1
      | (Inl e, st1) \<Rightarrow> logger Error (FailedToConnect ep) st1)"

definition initializeConnections_end :: "State \<Rightarrow> (error + unit) \<times> State" where
  "initializeConnections_end st =
     (if map_size (browserInstances st) = 0 then (Inl AllConnectionsFailed, st)
      else (Inr (), st))"

subsection \<open>Resetting and validating pages (lines 150 to 185, 247 to 256)\<close>

text \<open>
  \<^verbatim>\<open>findInstanceByPage\<close>: the first instance of the map whose browser is the page's.
  The accessors \<^verbatim>\<open>page.context()\<close> and \<^verbatim>\<open>browser()\<close> are not fallible calls of the
  world; a handle that names no page has no instance.
\<close>

definition findInstanceByPage :: "Page \<Rightarrow> State \<Rightarrow> InstRef option" where
  "findInstanceByPage p st =
     (if p < length (pages st)
      then find (\<lambda>r. pageBrowser (pages st ! p) = browser (heap st r))
             (map_values (browserInstances st))
      else None)"

definition resetPage :: "Page \<Rightarrow> State \<Rightarrow> (error + Page) \<times> State" where
  "resetPage p st =
     (case findInstanceByPage p st of
        None \<Rightarrow> (Inl PageNotOwned, st)
      | Some r \<Rightarrow>
          (case page_goto p ''about:blank'' (Some 500) st of
             (Inr u, st1) \<Rightarrow> (Inr p, st1)
           | (Inl e, st1) \<Rightarrow>
               (let st2 = snd (page_close p st1)
                in (case createAndSecurePage (browser (heap st2 r)) (Some r) st2 of
                      (Inr q, st3) \<Rightarrow> (Inr q, st3)
                    | (Inl createError, st3) \<Rightarrow>
                        (Inl createError, logger Error FailedToCreateAfterReset st3)))))"

definition validatePage :: "Page \<Rightarrow> State \<Rightarrow> bool \<times> State" where
  "validatePage p st =
     (if page_isClosed p st then (False, st)
      else (case page_evaluate p st of
              (Inr u, st1) \<Rightarrow> (True, st1)
            | (Inl e, st1) \<Rightarrow> (False, st1)))"

subsection \<open>Checking a page out (lines 187 to 222)\<close>

text \<open>\<^verbatim>\<open>instance.pagePool.shift()\<close>: the first page of the pool, removed from it.\<close>

definition pagePool_shift :: "InstRef \<Rightarrow> State \<Rightarrow> Page option \<times> State" where
  "pagePool_shift r st =
     (case pagePool (heap st r) of
        [] \<Rightarrow> (None, st)
      | p # ps \<Rightarrow> (Some p, st\<lparr>heap := (heap st)(r := (heap st r)\<lparr>pagePool := ps\<rparr>)\<rparr>))"

text \<open>
  Lines 199 to 207: a pooled page is handed out if it validates; one that does not is
  closed. \<open>None\<close> means that the loop body goes on to create a page.
\<close>

definition takePooledPage :: "InstRef \<Rightarrow> State \<Rightarrow> Page option \<times> State" where
  "takePooledPage r st =
     (case pagePool_shift r st of
        (None, st1) \<Rightarrow> (None, st1)
      | (Some p, st1) \<Rightarrow>
          (case validatePage p st1 of
             (isPageAccessible, st2) \<Rightarrow>
               if isPageAccessible then (Some p, st2)
               else (None, snd (page_close p st2))))"

text \<open>
  The body of the loop over the healthy instances (lines 199 to 217). \<open>None\<close> means
  that the loop goes on to the next instance, this one now marked unhealthy.
\<close>

definition tryInstance :: "InstRef \<Rightarrow> State \<Rightarrow> Page option \<times> State" where
  "tryInstance r st =
     (case takePooledPage r st of
        (Some p, st1) \<Rightarrow> (Some p, st1)
      | (None, st1) \<Rightarrow>
          (case createAndSecurePage (browser (heap st1 r)) (Some r) st1 of
             (Inr q, st2) \<Rightarrow> (Some q, st2)
           | (Inl e, st2) \<Rightarrow>
               (let st3 = logger Error (FailedToCreateFromInstance (endpoint (heap st2 r))) st2
                in (None, st3\<lparr>heap := (heap st3)(r := (heap st3 r)\<lparr>healthy := False\<rparr>)\<rparr>))))"

fun tryInstances :: "InstRef list \<Rightarrow> State \<Rightarrow> Page option \<times> State" where
  "tryInstances [] st = (None, logger Error AllInstancesFailed st)"
| "tryInstances (r # rs) st =
     (case tryInstance r st of
        (Some p, st1) \<Rightarrow> (Some p, st1)
      | (None, st1) \<Rightarrow> tryInstances rs st1)"

text \<open>
  Lines 188 to 190: the healthy instances, the fullest pool first. The comparator
  \<^verbatim>\<open>b.pagePool.length - a.pagePool.length\<close> with JavaScript's stable sort is a stable
  ascending sort on the negated pool length.
\<close>

definition healthyInstances :: "State \<Rightarrow> InstRef list" where
  "healthyInstances st =
     sort_key (\<lambda>r. - int (length (pagePool (heap st r))))
       (filter (\<lambda>r. healthy (heap st r)) (map_values (browserInstances st)))"

text \<open>
  \<^verbatim>\<open>attemptRecovery()\<close> called without an instance is its \<^verbatim>\<open>else\<close> branch
  (line 318).
\<close>

definition attemptRecovery_all :: "State \<Rightarrow> (error + unit) \<times> State" where
  "attemptRecovery_all st = initializeConnections st"

definition getAvailablePage :: "State \<Rightarrow> (error + Page option) \<times> State" where
  "getAvailablePage st =
     (let candidates = healthyInstances st
      in if length candidates = 0
         then (case attemptRecovery_all (logger Warn NoHealthyInstances st) of
                 (Inl e, st1) \<Rightarrow> (Inl e, st1)
               | (Inr u, st1) \<Rightarrow> (Inr None, st1))
         else (case tryInstances candidates st of (page, st1) \<Rightarrow> (Inr page, st1)))"

subsection \<open>Returning a page (lines 224 to 245)\<close>

text \<open>The \<^verbatim>\<open>try\<close> block of \<^verbatim>\<open>returnPage\<close> (lines 234 to 239).\<close>

definition returnPage_try :: "InstRef \<Rightarrow> Page \<Rightarrow> State \<Rightarrow> (error + unit) \<times> State" where
  "returnPage_try r p st =
     (if length (pagePool (heap st r)) < PAGE_POOL_SIZE
      then (case resetPage p st of
              (Inl e, st1) \<Rightarrow> (Inl e, st1)
            | (Inr q, st1) \<Rightarrow>
                (Inr (), st1\<lparr>heap := (heap st1)(r := (heap st1 r)\<lparr>
                                 pagePool := pagePool (heap st1 r) @ [q]\<rparr>)\<rparr>))
      else (Inr (), snd (page_close p st)))"

definition returnPage :: "Page \<Rightarrow> State \<Rightarrow> (error + unit) \<times> State" where
  "returnPage p st =
     (case findInstanceByPage p st of
        None \<Rightarrow>
          (case page_close p st of
             (Inr u, st1) \<Rightarrow> (Inr (), st1)
           | (Inl e, st1) \<Rightarrow> (Inr (), logger Error ErrorClosingOrphanedPage st1))
      | Some r \<Rightarrow>
          (case returnPage_try r p st of
             (Inr u, st1) \<Rightarrow> (Inr (), st1)
           | (Inl e, st1) \<Rightarrow>
               (Inr (), snd (page_close p (logger Error ErrorReturningPage st1)))))"

subsection \<open>Returning a page, in two parts\<close>

text \<open>
  \<^verbatim>\<open>returnPage\<close> in two parts. An \<^verbatim>\<open>async\<close> method runs uninterrupted up to an
  \<^verbatim>\<open>await\<close> of a call that is still pending, and other methods run before it resumes.
  On the path that pools the page, the first such \<^verbatim>\<open>await\<close> is the navigation of
  line 157, inside \<^verbatim>\<open>resetPage\<close>. \<open>returnPage_begin\<close> runs \<^verbatim>\<open>returnPage\<close> up to
  that point: lines 225 to 235 and 151 to 157, the navigation issued. What is pending is
  the instance found at line 225, the instance found at line 151, the page, and the
  result the navigation settles with. \<open>returnPage_resume\<close> is the rest: lines 159 to
  171 and 236 to 244. On every other path \<open>returnPage_begin\<close> runs the method to its
  end. Lemma \<open>returnPage_split\<close> below shows that the two parts, run one after the
  other, are \<^verbatim>\<open>returnPage\<close>.
\<close>

datatype PendingReturn = PendingReturn InstRef InstRef Page "error + unit"

definition returnPage_begin :: "Page \<Rightarrow> State \<Rightarrow> PendingReturn option \<times> State" where
  "returnPage_begin p st =
     (case findInstanceByPage p st of
        None \<Rightarrow> (None, snd (returnPage p st))
      | Some r \<Rightarrow>
          if length (pagePool (heap st r)) < PAGE_POOL_SIZE
          then (case findInstanceByPage p st of
                  None \<Rightarrow> (None, snd (returnPage p st))
                | Some r' \<Rightarrow>
                    (case page_goto p ''about:blank'' (Some 500) st of
                       (res, st1) \<Rightarrow> (Some (PendingReturn r r' p res), st1)))
          else (None, snd (returnPage p st)))"

fun resetPage_resume :: "PendingReturn \<Rightarrow> State \<Rightarrow> (error + Page) \<times> State" where
  "resetPage_resume (PendingReturn r r' p res) st =
     (case res of
        Inr u \<Rightarrow> (Inr p, st)
      | Inl e \<Rightarrow>
          (let st2 = snd (page_close p st)
           in (case createAndSecurePage (browser (heap st2 r')) (Some r') st2 of
                 (Inr q, st3) \<Rightarrow> (Inr q, st3)
               | (Inl createError, st3) \<Rightarrow>
                   (Inl createError, logger Error FailedToCreateAfterReset st3))))"

fun returnPage_resume :: "PendingReturn \<Rightarrow> State \<Rightarrow> State" where
  "returnPage_resume (PendingReturn r r' p res) st =
     (case resetPage_resume (PendingReturn r r' p res) st of
        (Inr q, st1) \<Rightarrow>
          st1\<lparr>heap := (heap st1)(r := (heap st1 r)\<lparr>
                    pagePool := pagePool (heap st1 r) @ [q]\<rparr>)\<rparr>
      | (Inl e, st1) \<Rightarrow> snd (page_close p (logger Error ErrorReturningPage st1)))"

subsection \<open>Recovery (lines 280 to 320)\<close>

text \<open>
  \<^verbatim>\<open>instance.pagePool.forEach((page) => page.close().catch(() => {}))\<close> and the
  \<^verbatim>\<open>Promise.all\<close> of the shutdown handler: every page of the list is closed, a failure
  is swallowed.
\<close>

definition closeAll :: "Page list \<Rightarrow> State \<Rightarrow> State" where
  "closeAll ps st = fold (\<lambda>p s. snd (page_close p s)) ps st"

text \<open>
  The \<^verbatim>\<open>try\<close> block of the \<^verbatim>\<open>while (true)\<close> loop (lines 287 to 297), for attempt
  number \<open>attempt\<close>; \<open>Inr\<close> is the \<^verbatim>\<open>break\<close>.
\<close>

definition reconnect_try :: "nat \<Rightarrow> InstRef \<Rightarrow> State \<Rightarrow> (error + unit) \<times> State" where
  "reconnect_try attempt r st =
     (let ep = endpoint (heap st r);
          st1 = logger Info (AttemptingReconnect ep attempt) st;
          st2 = st1\<lparr>browserInstances := map_delete ep (browserInstances st1)\<rparr>;
          st3 = closeAll (pagePool (heap st2 r)) st2;
          st4 = snd (browser_close (browser (heap st3 r)) st3)
      in (case connectToBrowser (endpoint (heap st4 r)) st4 of
            (Inl e, st5) \<Rightarrow> (Inl e, st5)
          | (Inr u, st5) \<Rightarrow>
              (Inr (), logger Info (SuccessfullyReconnected (endpoint (heap st5 r))) st5)))"

text \<open>Lines 299 to 304.\<close>

definition backoffDelay :: "nat \<Rightarrow> nat" where
  "backoffDelay attempt =
     (let exponentialDelay = INITIAL_RECONNECT_DELAY * 2 ^ (attempt - 1)
      in min exponentialDelay (INITIAL_RECONNECT_DELAY * MAX_RECONNECT_MULTIPLIER))"

text \<open>
  The \<^verbatim>\<open>while (true)\<close> loop, with its variables \<open>(currentDelay, attempt)\<close>. The source
  has no bound on the number of attempts: the model takes fuel, one unit per attempt,
  and \<open>None\<close> says that the fuel ran out before a reconnection succeeded. On success the
  final values of the loop variables are returned with the state.
\<close>

fun reconnectLoop ::
  "nat \<Rightarrow> nat \<times> nat \<Rightarrow> InstRef \<Rightarrow> State \<Rightarrow> ((nat \<times> nat) \<times> State) option" where
  "reconnectLoop 0 vars r st = None"
| "reconnectLoop (Suc fuel) (currentDelay, attempt) r st =
     (case reconnect_try attempt r st of
        (Inr u, st1) \<Rightarrow> Some ((currentDelay, attempt), st1)
      | (Inl e, st1) \<Rightarrow>
          (let currentDelay' = backoffDelay attempt;
               st2 = logger Error
                       (ReconnectAttemptFailed attempt (endpoint (heap st1 r)) currentDelay') st1;
               st3 = sleep currentDelay' st2
           in reconnectLoop fuel (currentDelay', attempt + 1) r st3))"

definition attemptRecovery ::
  "nat \<Rightarrow> InstRef option \<Rightarrow> State \<Rightarrow> ((error + unit) \<times> State) option" where
  "attemptRecovery fuel instance st =
     (case instance of
        Some r \<Rightarrow>
          (case reconnectLoop fuel (INITIAL_RECONNECT_DELAY, 1) r st of
             None \<Rightarrow> None
           | Some (vars, st1) \<Rightarrow> Some (Inr (), st1))
      | None \<Rightarrow> Some (attemptRecovery_all st))"

subsection \<open>Health checks (lines 258 to 278, 322 to 328)\<close>

text \<open>The \<^verbatim>\<open>try\<close> block of \<^verbatim>\<open>checkBrowserHealth\<close> (lines 260 to 272).\<close>

definition checkBrowserHealth_try :: "InstRef \<Rightarrow> State \<Rightarrow> (error + unit) \<times> State" where
  "checkBrowserHealth_try r st =
     (case browser_isConnected (browser (heap st r)) st of
        (connected, st1) \<Rightarrow>
          if \<not> connected then (Inl BrowserDisconnected, st1)
          else (case createAndSecurePage (browser (heap st1 r)) (Some r) st1 of
                  (Inl e, st2) \<Rightarrow> (Inl e, st2)
                | (Inr testPage, st2) \<Rightarrow>
                    (case page_goto testPage ''about:blank'' None st2 of
                       (Inl e, st3) \<Rightarrow> (Inl e, st3)
                     | (Inr u, st3) \<Rightarrow>
                         (case page_close testPage st3 of
                            (Inl e, st4) \<Rightarrow> (Inl e, st4)
                          | (Inr u, st4) \<Rightarrow>
                              (Inr (), st4\<lparr>heap := (heap st4)(r := (heap st4 r)\<lparr>
                                  healthy := True,
                                  lastHealthCheck := length (trace st4)\<rparr>)\<rparr>)))))"

definition checkBrowserHealth ::
  "nat \<Rightarrow> InstRef \<Rightarrow> State \<Rightarrow> ((error + unit) \<times> State) option" where
  "checkBrowserHealth fuel r st =
     (case checkBrowserHealth_try r st of
        (Inr u, st1) \<Rightarrow> Some (Inr (), st1)
      | (Inl e, st1) \<Rightarrow>
          (let st2 = st1\<lparr>heap := (heap st1)(r := (heap st1 r)\<lparr>healthy := False\<rparr>)\<rparr>;
               st3 = logger Error (InstanceUnhealthy (endpoint (heap st2 r))) st2
           in attemptRecovery fuel (Some r) st3))"

text \<open>
  One firing of the timer of \<^verbatim>\<open>startHealthChecks\<close>: the \<^verbatim>\<open>for ... of\<close> loop over
  \<^verbatim>\<open>this.browserInstances.values()\<close>, whose iterator stands at slot \<open>i\<close> and is live
  while the map changes under it. Fuel is handed on to each check; \<open>None\<close> says that it
  ran out.
\<close>

fun healthCheckLoop :: "nat \<Rightarrow> nat \<Rightarrow> State \<Rightarrow> ((error + unit) \<times> State) option" where
  "healthCheckLoop 0 i st = None"
| "healthCheckLoop (Suc fuel) i st =
     (case map_next i (browserInstances st) of
        None \<Rightarrow> Some (Inr (), st)
      | Some ((ep, r), i') \<Rightarrow>
          (case checkBrowserHealth fuel r st of
             None \<Rightarrow> None
           | Some (Inl e, st1) \<Rightarrow> Some (Inl e, st1)
           | Some (Inr u, st1) \<Rightarrow> healthCheckLoop fuel i' st1))"

definition healthCheckTick :: "nat \<Rightarrow> State \<Rightarrow> ((error + unit) \<times> State) option" where
  "healthCheckTick fuel st = healthCheckLoop fuel 0 st"

subsection \<open>Shutdown (lines 330 to 350)\<close>

text \<open>
  The handler \<^verbatim>\<open>cleanup\<close>. Nothing in the body of its loop can throw (every close
  swallows its failure) and nothing in it changes the map.
\<close>

fun cleanupEach :: "InstRef list \<Rightarrow> State \<Rightarrow> State" where
  "cleanupEach [] st = st"
| "cleanupEach (r # rs) st =
     (let st1 = closeAll (pagePool (heap st r)) st;
          st2 = snd (browser_close (browser (heap st1 r)) st1)
      in cleanupEach rs st2)"

definition cleanup :: "State \<Rightarrow> State" where
  "cleanup st =
     (let st1 = logger Info CleaningUp st;
          st2 = cleanupEach (map_values (browserInstances st1)) st1
      in st2\<lparr>browserInstances := map_clear (browserInstances st2)\<rparr>)"

section \<open>Observations and scenarios\<close>


fun isConnect :: "Call \<Rightarrow> bool" where
  "isConnect (Connect ep) = True"
| "isConnect c = False"


text \<open>What the trace shows: the endpoints a connection was attempted to, in order.\<close>

fun connects :: "Call list \<Rightarrow> string list" where
  "connects [] = []"
| "connects (Connect ep # cs) = ep # connects cs"
| "connects (c # cs) = connects cs"

text \<open>
  The manager as its constructor leaves it, in a world with outcomes \<open>f\<close> and the
  environment variable \<open>env\<close>: no browser, no page, an empty map.
\<close>

definition noInstance :: BrowserInstance where
  "noInstance = \<lparr>browser = 0, pagePool = [], endpoint = [], healthy = False,
                  lastHealthCheck = 0, markedForShutdown = None\<rparr>"

definition freshManager :: "(Call list \<Rightarrow> Call \<Rightarrow> bool) \<Rightarrow> string option \<Rightarrow> State" where
  "freshManager f env =
     \<lparr>BROWSER_ENDPOINTS = env, pages = [], browsers = [], outcome = f, trace = [],
      heap = (\<lambda>r. noInstance), nextRef = 0, browserInstances = []\<rparr>"

text \<open>A page as \<^verbatim>\<open>createAndSecurePage\<close> leaves it: open and hardened.\<close>

definition securedPage :: "Browser \<Rightarrow> PageInfo" where
  "securedPage b =
     \<lparr>pageBrowser = b, pageClosed = False, acceptDownloads = False,
      serviceWorkers = ''block'', userAgent = USER_AGENT, dismissesDialogs = True,
      closesPopups = True, defaultTimeout = Some DEFAULT_PAGE_TIMEOUT\<rparr>"

text \<open>
  A manager with one connection, to endpoint \<open>a\<close> (browser 0), whose pool holds the
  pages \<open>0, ..., n - 1\<close>. Page \<open>n\<close> of the same browser is checked out. Page \<open>n + 1\<close>
  belongs to browser 1, which the map does not know: an orphan.
\<close>

definition poolState :: "nat \<Rightarrow> (Call list \<Rightarrow> Call \<Rightarrow> bool) \<Rightarrow> State" where
  "poolState n f =
     \<lparr>BROWSER_ENDPOINTS = Some ''a'',
      pages = replicate (Suc n) (securedPage 0) @ [securedPage 1],
      browsers = [\<lparr>browserEndpoint = ''a'', browserClosed = False\<rparr>,
                  \<lparr>browserEndpoint = ''b'', browserClosed = False\<rparr>],
      outcome = f, trace = [],
      heap = (\<lambda>r. \<lparr>browser = 0, pagePool = [0..<n], endpoint = ''a'', healthy = True,
                     lastHealthCheck = 0, markedForShutdown = None\<rparr>),
      nextRef = 1, browserInstances = [Some (''a'', 0)]\<rparr>"

fun isGoto :: "Call \<Rightarrow> bool" where
  "isGoto (Goto p u t) = True"
| "isGoto c = False"

fun isEvaluate :: "Call \<Rightarrow> bool" where
  "isEvaluate (Evaluate p) = True"
| "isEvaluate c = False"

text \<open>
  What happened in the loop of \<^verbatim>\<open>initializeConnections\<close> over the endpoints \<open>eps\<close>,
  started in state \<open>st\<close>: the endpoints whose \<^verbatim>\<open>connectToBrowser\<close> returned normally,
  and those whose \<^verbatim>\<open>connectToBrowser\<close> threw.
\<close>

fun connectedEndpoints :: "string list \<Rightarrow> State \<Rightarrow> string list" where
  "connectedEndpoints [] st = []"
| "connectedEndpoints (ep # eps) st =
     (case connectToBrowser ep st of
        (Inr u, st1) \<Rightarrow> ep # connectedEndpoints eps st1
      | (Inl e, st1) \<Rightarrow> connectedEndpoints eps (logger Error (FailedToConnect ep) st1))"

fun failedEndpoints :: "string list \<Rightarrow> State \<Rightarrow> string list" where
  "failedEndpoints [] st = []"
| "failedEndpoints (ep # eps) st =
     (case connectToBrowser ep st of
        (Inr u, st1) \<Rightarrow> failedEndpoints eps st1
      | (Inl e, st1) \<Rightarrow> ep # failedEndpoints eps (logger Error (FailedToConnect ep) st1))"

text \<open>What the trace shows: the endpoints a connection failure was logged for.\<close>

fun failureLogs :: "Call list \<Rightarrow> string list" where
  "failureLogs [] = []"
| "failureLogs (Log Error (FailedToConnect ep) # cs) = ep # failureLogs cs"
| "failureLogs (c # cs) = failureLogs cs"

text \<open>The endpoints the map holds an instance for.\<close>

definition map_keys :: "InstanceMap \<Rightarrow> string set" where
  "map_keys m = fst ` set (map_entries m)"

text \<open>A world in which only the first connection attempt succeeds.\<close>

definition firstOnly :: "Call list \<Rightarrow> Call \<Rightarrow> bool" where
  "firstOnly h c = (if isConnect c then connects h = [] else True)"

text \<open>
  A manager with two connections, \<open>a\<close> (instance 0, browser 0) and \<open>b\<close> (instance 1,
  browser 1), both pools empty.
\<close>

definition twoInstances :: "(Call list \<Rightarrow> Call \<Rightarrow> bool) \<Rightarrow> State" where
  "twoInstances f =
     \<lparr>BROWSER_ENDPOINTS = Some ''a,b'', pages = [],
      browsers = [\<lparr>browserEndpoint = ''a'', browserClosed = False\<rparr>,
                  \<lparr>browserEndpoint = ''b'', browserClosed = False\<rparr>],
      outcome = f, trace = [],
      heap = (\<lambda>r. \<lparr>browser = r, pagePool = [],
                     endpoint = (if r = 0 then ''a'' else ''b''), healthy = True,
                     lastHealthCheck = 0, markedForShutdown = None\<rparr>),
      nextRef = 2, browserInstances = [Some (''a'', 0), Some (''b'', 1)]\<rparr>"

text \<open>
  The bound on the pools: every instance the map holds has at most
  \<^verbatim>\<open>PAGE_POOL_SIZE\<close> pages in its pool.
\<close>

definition pool_bounded :: "State \<Rightarrow> bool" where
  "pool_bounded st =
     (\<forall>e \<in> set (map_entries (browserInstances st)).
        length (pagePool (heap st (snd e))) \<le> PAGE_POOL_SIZE)"

text \<open>
  What a step from \<open>st\<close> to \<open>st'\<close> may do to the pools without endangering the
  bound: no pool grows beyond the bound unless it was beyond it already, and an
  instance the map has gained has a pool within the bound.
\<close>

definition pool_step :: "State \<Rightarrow> State \<Rightarrow> bool" where
  "pool_step st st' =
     ((\<forall>r. length (pagePool (heap st' r)) \<le> max (length (pagePool (heap st r))) PAGE_POOL_SIZE) \<and>
      (\<forall>e \<in> set (map_entries (browserInstances st')).
         e \<in> set (map_entries (browserInstances st)) \<or>
         length (pagePool (heap st' (snd e))) \<le> PAGE_POOL_SIZE))"

text \<open>
  A run from the fresh manager, in a world where every call succeeds: the connection
  to \<open>a\<close> is brought up, eleven pages are checked out (the pool's ten and one created
  on demand), and the pages 0 to 8 are returned, one call after the other. Pages 9 and
  10 are still out.
\<close>

fun checkouts :: "nat \<Rightarrow> State \<Rightarrow> State" where
  "checkouts 0 st = st"
| "checkouts (Suc n) st = checkouts n (snd (getAvailablePage st))"

fun returnEach :: "Page list \<Rightarrow> State \<Rightarrow> State" where
  "returnEach [] st = st"
| "returnEach (p # ps) st = returnEach ps (snd (returnPage p st))"

definition busyState :: State where
  "busyState =
     returnEach [0, 1, 2, 3, 4, 5, 6, 7, 8]
       (checkouts 11 (snd (initializeConnections (freshManager (\<lambda>h c. True) (Some ''a'')))))"

text \<open>
  What the world answers when the body of the loop of \<^verbatim>\<open>getAvailablePage\<close> (lines 199
  to 217), run for instance \<open>r\<close> in state \<open>st\<close>, yields no page. With an empty pool:
  the browser refuses a new page. Otherwise, for the page at the head of the pool:
  either it is closed already, or its evaluation fails; it is then closed (line 206), and
  after that the browser refuses a new page.
\<close>

definition candidateFails :: "InstRef \<Rightarrow> State \<Rightarrow> bool" where
  "candidateFails r st =
     (case pagePool (heap st r) of
        [] \<Rightarrow> \<not> succeeds (NewPage (browser (heap st r))) st
      | p # ps \<Rightarrow>
          if page_isClosed p st
          then \<not> outcome st (trace st @ [ClosePage p]) (NewPage (browser (heap st r)))
          else \<not> succeeds (Evaluate p) st \<and>
               \<not> outcome st (trace st @ [Evaluate p, ClosePage p])
                   (NewPage (browser (heap st r))))"

text \<open>Every candidate of the list, tried in this order from \<open>st\<close>, yields no page.\<close>

fun exhausted :: "InstRef list \<Rightarrow> State \<Rightarrow> bool" where
  "exhausted [] st = True"
| "exhausted (r # rs) st = (candidateFails r st \<and> exhausted rs (snd (tryInstance r st)))"

text \<open>
  What the map and the objects it refers to satisfy in the manager as its constructor
  leaves it and after every method run from there (lemmas \<open>wellFormed_fresh\<close> and
  \<open>wellFormed_preserved\<close>): no endpoint is a key twice, every instance is registered
  under its own endpoint, and every registered reference has been allocated.
\<close>

definition wellFormed :: "State \<Rightarrow> bool" where
  "wellFormed st =
     (distinct (map fst (map_entries (browserInstances st))) \<and>
      (\<forall>e \<in> set (map_entries (browserInstances st)).
         endpoint (heap st (snd e)) = fst e \<and> snd e < nextRef st))"

text \<open>
  The entries of the map from slot \<open>i\<close> on, those for the endpoint \<open>ep\<close> left out.
\<close>

definition others :: "string \<Rightarrow> nat \<Rightarrow> InstanceMap \<Rightarrow> (string \<times> InstRef) list" where
  "others ep i m = filter (\<lambda>e. fst e \<noteq> ep) (map_entries (drop i m))"

text \<open>
  A step that only talks to the world or updates the pool, the health flag or the time
  of the last check of an instance: the trace grows, and the environment variable, the
  map, the allocation counter and the browser and endpoint of every instance stay as
  they are.
\<close>

definition sameManager :: "State \<Rightarrow> State \<Rightarrow> bool" where
  "sameManager st st' =
     ((\<exists>ext. trace st' = trace st @ ext) \<and> nextRef st' = nextRef st \<and>
      BROWSER_ENDPOINTS st' = BROWSER_ENDPOINTS st \<and>
      browserInstances st' = browserInstances st \<and>
      (\<forall>r. browser (heap st' r) = browser (heap st r) \<and>
           endpoint (heap st' r) = endpoint (heap st r)))"

text \<open>
  A step that may also register or remove the instance of endpoint \<open>ep\<close>: the trace
  grows, the environment variable stays as it is, the instances allocated before keep
  their browser and endpoint, the entries of the map for other endpoints stay where
  they are, and a well-formed state stays well-formed.
\<close>

definition keeps :: "string \<Rightarrow> State \<Rightarrow> State \<Rightarrow> bool" where
  "keeps ep st st' =
     ((\<exists>ext. trace st' = trace st @ ext) \<and> nextRef st \<le> nextRef st' \<and>
      BROWSER_ENDPOINTS st' = BROWSER_ENDPOINTS st \<and>
      (\<forall>r < nextRef st. browser (heap st' r) = browser (heap st r) \<and>
                       endpoint (heap st' r) = endpoint (heap st r)) \<and>
      (\<forall>i. others ep i (browserInstances st') = others ep i (browserInstances st)) \<and>
      (wellFormed st \<longrightarrow> wellFormed st'))"

text \<open>
  The map holds instances for configured endpoints only. This holds in the manager as
  its constructor leaves it and after every method run from there, as long as the
  environment variable is not changed (lemmas \<open>configuredOnly_fresh\<close> and
  \<open>configuredOnly_preserved\<close>).
\<close>

definition configuredOnly :: "State \<Rightarrow> bool" where
  "configuredOnly st = (map_keys (browserInstances st) \<subseteq> set (getEndpoints st))"

section \<open>Basic facts\<close>

lemmas world_defs = emit_def logger_def sleep_def succeeds_def chromium_connect_def
  browser_newPage_def browser_isConnected_def page_goto_def page_evaluate_def
  page_isClosed_def page_close_def browser_close_def

lemmas map_defs = map_values_def map_size_def map_get_def map_delete_def map_set_def
  map_clear_def map_next_def

lemmas manager_defs = getEndpoints_def createBasePage_def setupCoreSecurityControls_def
  createAndSecurePage_def connectToBrowser_try_def connectToBrowser_def
  initializeConnections_def findInstanceByPage_def resetPage_def validatePage_def
  pagePool_shift_def takePooledPage_def tryInstance_def healthyInstances_def
  attemptRecovery_all_def getAvailablePage_def returnPage_try_def returnPage_def
  closeAll_def reconnect_try_def backoffDelay_def attemptRecovery_def
  checkBrowserHealth_try_def checkBrowserHealth_def healthCheckTick_def cleanup_def

lemmas const_defs = PAGE_POOL_SIZE_def INITIAL_RECONNECT_DELAY_def
  MAX_RECONNECT_MULTIPLIER_def DEFAULT_PAGE_TIMEOUT_def

text \<open>Unrolling the loops when the count is a numeral.\<close>

lemma warmPool_unroll:
  "warmPool (numeral k) b r pool st =
     (case createAndSecurePage b (Some r) st of
        (Inl e, st1) \<Rightarrow> (Inl e, st1)
      | (Inr p, st1) \<Rightarrow> warmPool (pred_numeral k) b r (pool @ [p]) st1)"
  by (simp add: numeral_eq_Suc)

lemma reconnectLoop_unroll:
  "reconnectLoop (numeral k) (currentDelay, attempt) r st =
     (case reconnect_try attempt r st of
        (Inr u, st1) \<Rightarrow> Some ((currentDelay, attempt), st1)
      | (Inl e, st1) \<Rightarrow>
          (let currentDelay' = backoffDelay attempt;
               st2 = logger Error
                       (ReconnectAttemptFailed attempt (endpoint (heap st1 r)) currentDelay') st1;
               st3 = sleep currentDelay' st2
           in reconnectLoop (pred_numeral k) (currentDelay', attempt + 1) r st3))"
  by (simp add: numeral_eq_Suc)

lemma healthCheckLoop_unroll:
  "healthCheckLoop (numeral k) i st =
     (case map_next i (browserInstances st) of
        None \<Rightarrow> Some (Inr (), st)
      | Some ((ep, r), i') \<Rightarrow>
          (case checkBrowserHealth (pred_numeral k) r st of
             None \<Rightarrow> None
           | Some (Inl e, st1) \<Rightarrow> Some (Inl e, st1)
           | Some (Inr u, st1) \<Rightarrow> healthCheckLoop (pred_numeral k) i' st1))"
  by (simp add: numeral_eq_Suc)

lemmas unroll = warmPool_unroll reconnectLoop_unroll healthCheckLoop_unroll

subsection \<open>Sleeping happens only between reconnection attempts\<close>















subsection \<open>Connection attempts\<close>

lemma connects_append: "connects (xs @ ys) = connects xs @ connects ys"
  by (induction xs rule: connects.induct) simp_all

lemma connects_emit: "connects (trace (emit c st)) = connects (trace st) @ connects [c]"
  by (simp add: emit_def connects_append)

lemma createAndSecurePage_connects:
  "connects (trace (snd (createAndSecurePage b i st))) = connects (trace st)"
  by (simp add: createAndSecurePage_def createBasePage_def browser_newPage_def
      setupCoreSecurityControls_def connects_emit split: option.splits)

lemma warmPool_connects:
  "connects (trace (snd (warmPool n b r pool st))) = connects (trace st)"
proof (induction n arbitrary: pool st)
  case 0
  show ?case by simp
next
  case (Suc n)
  show ?case
    using Suc.IH createAndSecurePage_connects [of b "Some r" st]
    by (auto split: prod.splits sum.splits)
qed

lemma browser_close_connects:
  "connects (trace (snd (browser_close b st))) = connects (trace st)"
  by (simp add: browser_close_def connects_emit)

lemma page_close_connects:
  "connects (trace (snd (page_close p st))) = connects (trace st)"
  by (simp add: page_close_def connects_emit)

lemma chromium_connect_connects:
  "connects (trace (snd (chromium_connect ep st))) = connects (trace st) @ [ep]"
  by (simp add: chromium_connect_def connects_emit)

lemma logger_connects: "connects (trace (logger l m st)) = connects (trace st)"
  by (simp add: logger_def connects_emit)

lemmas connects_frame = chromium_connect_connects logger_connects warmPool_connects
  browser_close_connects page_close_connects createAndSecurePage_connects

lemma connectToBrowser_try_connects:
  "connects (trace (snd (connectToBrowser_try ep st))) = connects (trace st) @ [ep]"
  by (simp add: connectToBrowser_try_def Let_def case_prod_unfold connects_frame
      split: sum.splits)

lemma connectToBrowser_connects:
  "connects (trace (snd (connectToBrowser ep st))) = connects (trace st) @ [ep]"
  by (simp add: connectToBrowser_def Let_def case_prod_unfold connects_frame
      connectToBrowser_try_connects split: sum.splits option.splits)

lemma connectEach_connects:
  "connects (trace (connectEach eps st)) = connects (trace st) @ eps"
proof (induction eps arbitrary: st)
  case Nil
  show ?case by simp
next
  case (Cons ep eps)
  show ?case
    using connectToBrowser_connects [of ep st]
    by (auto simp: Cons.IH logger_connects split: prod.splits sum.splits)
qed

lemma split_comma_nonempty: "split_comma s \<noteq> []"
  by (induction s) (auto split: list.splits)

lemma getEndpoints_empty_iff: "(getEndpoints st = []) = (BROWSER_ENDPOINTS st = None)"
  by (simp add: getEndpoints_def split_comma_nonempty split: option.splits)

subsection \<open>Pages, closing and resetting\<close>

lemma page_close_closed: "page_isClosed p (snd (page_close p st))"
  by (simp add: page_close_def page_isClosed_def emit_def)

lemma logger_isClosed: "page_isClosed p (logger l m st) = page_isClosed p st"
  by (simp add: logger_def emit_def page_isClosed_def)

lemma createAndSecurePage_keeps_closed:
  "p < length (pages st) \<Longrightarrow> page_isClosed p st \<Longrightarrow>
   page_isClosed p (snd (createAndSecurePage b i st))"
  by (auto simp: createAndSecurePage_def createBasePage_def browser_newPage_def
      setupCoreSecurityControls_def page_isClosed_def emit_def nth_append nth_list_update
      split: option.splits)

lemma findInstanceByPage_valid: "findInstanceByPage p st = Some r \<Longrightarrow> p < length (pages st)"
  by (simp add: findInstanceByPage_def split: if_splits)

lemma page_close_heap: "heap (snd (page_close p st)) = heap st"
  by (simp add: page_close_def emit_def)

lemma page_goto_heap: "heap (snd (page_goto p u t st)) = heap st"
  by (simp add: page_goto_def emit_def)

lemma logger_heap: "heap (logger l m st) = heap st"
  by (simp add: logger_def emit_def)

lemma createAndSecurePage_heap: "heap (snd (createAndSecurePage b i st)) = heap st"
  by (simp add: createAndSecurePage_def createBasePage_def browser_newPage_def
      setupCoreSecurityControls_def emit_def split: option.splits)

lemma resetPage_heap: "heap (snd (resetPage p st)) = heap st"
  by (simp add: resetPage_def case_prod_unfold Let_def page_close_heap page_goto_heap
      logger_heap createAndSecurePage_heap split: option.splits sum.splits)

lemma page_close_trace: "trace (snd (page_close p st)) = trace st @ [ClosePage p]"
  by (simp add: page_close_def emit_def)

lemma logger_trace: "trace (logger l m st) = trace st @ [Log l m]"
  by (simp add: logger_def emit_def)

lemma returnPage_no_exception: "fst (returnPage p st) = Inr ()"
  by (simp add: returnPage_def case_prod_unfold split: option.splits sum.splits)

lemma returnPage_orphan:
  assumes "findInstanceByPage p st = None"
  shows "page_isClosed p (snd (returnPage p st))"
    and "ClosePage p \<in> set (trace (snd (returnPage p st)))"
    and "heap (snd (returnPage p st)) = heap st"
  using assms
  by (simp_all add: returnPage_def case_prod_unfold page_close_closed logger_isClosed
      page_close_trace logger_trace page_close_heap logger_heap split: sum.splits)

lemma returnPage_full:
  assumes "findInstanceByPage p st = Some r" "\<not> length (pagePool (heap st r)) < PAGE_POOL_SIZE"
  shows "snd (returnPage p st) = snd (page_close p st)"
  using assms
  by (simp add: returnPage_def returnPage_try_def)

lemma returnPage_try_fails_heap:
  "fst (returnPage_try r p st) \<noteq> Inr () \<Longrightarrow> heap (snd (returnPage_try r p st)) = heap st"
  by (auto simp: returnPage_try_def case_prod_unfold resetPage_heap split: if_splits sum.splits)

lemma returnPage_caught:
  assumes "findInstanceByPage p st = Some r" "fst (returnPage_try r p st) \<noteq> Inr ()"
  shows "snd (returnPage p st) =
           snd (page_close p (logger Error ErrorReturningPage (snd (returnPage_try r p st))))"
  using assms
  by (cases "returnPage_try r p st") (auto simp: returnPage_def split: sum.splits)

lemma page_goto_pages: "pages (snd (page_goto p u t st)) = pages st"
  by (simp add: page_goto_def emit_def)

lemma page_close_length: "length (pages (snd (page_close p st))) = length (pages st)"
  by (simp add: page_close_def emit_def)

lemma logger_pages: "pages (logger l m st) = pages st"
  by (simp add: logger_def emit_def)

lemma page_goto_isClosed: "page_isClosed q (snd (page_goto p u t st)) = page_isClosed q st"
  by (simp add: page_goto_def emit_def page_isClosed_def)

lemma resetPage_result:
  assumes "findInstanceByPage p st = Some r" "fst (resetPage p st) = Inr q"
  shows "q = p \<or> page_isClosed p (snd (resetPage p st))"
  using assms findInstanceByPage_valid [OF assms(1)]
  by (auto simp: resetPage_def case_prod_unfold Let_def page_close_closed
      createAndSecurePage_keeps_closed page_goto_pages page_close_length
      split: sum.splits)

lemma createAndSecurePage_new:
  "succeeds (NewPage b) st \<Longrightarrow>
   createAndSecurePage b (Some r) st =
     (Inr (length (pages st)),
      (emit (NewPage b) st)\<lparr>pages := pages st @ [securedPage b]\<rparr>)"
  by (simp add: createAndSecurePage_def createBasePage_def browser_newPage_def
      setupCoreSecurityControls_def emit_def securedPage_def)

lemma createAndSecurePage_fail:
  "\<not> succeeds (NewPage b) st \<Longrightarrow>
   createAndSecurePage b i st = (Inl (NewPageError b), emit (NewPage b) st)"
  by (simp add: createAndSecurePage_def createBasePage_def browser_newPage_def)

lemma resetPage_cases:
  "(findInstanceByPage p st = None \<longrightarrow> resetPage p st = (Inl PageNotOwned, st)) \<and>
   (\<forall>r. findInstanceByPage p st = Some r \<longrightarrow>
      (succeeds (Goto p ''about:blank'' (Some 500)) st \<longrightarrow>
         fst (resetPage p st) = Inr p \<and>
         trace (snd (resetPage p st)) = trace st @ [Goto p ''about:blank'' (Some 500)]) \<and>
      (\<not> succeeds (Goto p ''about:blank'' (Some 500)) st \<longrightarrow>
         (outcome st (trace st @ [Goto p ''about:blank'' (Some 500), ClosePage p])
            (NewPage (browser (heap st r))) \<longrightarrow>
            fst (resetPage p st) = Inr (length (pages st)) \<and>
            trace (snd (resetPage p st)) = trace st @
              [Goto p ''about:blank'' (Some 500), ClosePage p, NewPage (browser (heap st r))] \<and>
            page_isClosed p (snd (resetPage p st)) \<and>
            pages (snd (resetPage p st)) ! length (pages st) = securedPage (browser (heap st r))) \<and>
         (\<not> outcome st (trace st @ [Goto p ''about:blank'' (Some 500), ClosePage p])
            (NewPage (browser (heap st r))) \<longrightarrow>
            fst (resetPage p st) = Inl (NewPageError (browser (heap st r))) \<and>
            trace (snd (resetPage p st)) = trace st @
              [Goto p ''about:blank'' (Some 500), ClosePage p, NewPage (browser (heap st r)),
               Log Error FailedToCreateAfterReset])))"
proof (intro conjI allI impI)
  assume "findInstanceByPage p st = None"
  then show "resetPage p st = (Inl PageNotOwned, st)"
    by (simp add: resetPage_def)
next
  fix r
  assume own: "findInstanceByPage p st = Some r"
  let ?g = "Goto p ''about:blank'' (Some 500)"
  {
    assume "succeeds ?g st"
    then show "fst (resetPage p st) = Inr p"
      and "trace (snd (resetPage p st)) = trace st @ [?g]"
      using own by (simp_all add: resetPage_def page_goto_def emit_def)
  }
  assume nav: "\<not> succeeds ?g st"
  let ?st2 = "snd (page_close p (snd (page_goto p ''about:blank'' (Some 500) st)))"
  let ?b = "browser (heap st r)"
  have tr2: "trace ?st2 = trace st @ [?g, ClosePage p]"
    by (simp add: page_close_def page_goto_def emit_def)
  have out2: "outcome ?st2 = outcome st"
    by (simp add: page_close_def page_goto_def emit_def)
  have hp2: "heap ?st2 = heap st"
    by (simp add: page_close_heap page_goto_heap)
  have len2: "length (pages ?st2) = length (pages st)"
    by (simp add: page_close_length page_goto_pages)
  have cl2: "page_isClosed p ?st2"
    by (rule page_close_closed)
  have valid: "p < length (pages st)"
    using findInstanceByPage_valid [OF own] .
  have unfold: "resetPage p st =
      (case createAndSecurePage ?b (Some r) ?st2 of
         (Inr q, st3) \<Rightarrow> (Inr q, st3)
       | (Inl createError, st3) \<Rightarrow>
           (Inl createError, logger Error FailedToCreateAfterReset st3))"
    using own nav by (simp add: resetPage_def page_goto_def Let_def page_close_heap emit_def)
  {
    assume "outcome st (trace st @ [?g, ClosePage p]) (NewPage ?b)"
    then have ok: "succeeds (NewPage ?b) ?st2"
      by (simp add: succeeds_def tr2 out2)
    note new = createAndSecurePage_new [OF ok, of r]
    show "fst (resetPage p st) = Inr (length (pages st))"
      by (simp add: unfold new len2)
    show "trace (snd (resetPage p st)) = trace st @ [?g, ClosePage p, NewPage ?b]"
      by (simp add: unfold new emit_def tr2)
    show "page_isClosed p (snd (resetPage p st))"
      using cl2 valid len2
      by (simp add: unfold new emit_def page_isClosed_def nth_append)
    show "pages (snd (resetPage p st)) ! length (pages st) = securedPage ?b"
      using len2 by (simp add: unfold new emit_def nth_append)
  }
  {
    assume "\<not> outcome st (trace st @ [?g, ClosePage p]) (NewPage ?b)"
    then have ko: "\<not> succeeds (NewPage ?b) ?st2"
      by (simp add: succeeds_def tr2 out2)
    note f = createAndSecurePage_fail [OF ko, of "Some r"]
    show "fst (resetPage p st) = Inl (NewPageError ?b)"
      by (simp add: unfold f)
    show "trace (snd (resetPage p st)) = trace st @
              [?g, ClosePage p, NewPage ?b, Log Error FailedToCreateAfterReset]"
      by (simp add: unfold f emit_def logger_def tr2)
  }
qed

lemmas scenario_defs = poolState_def securedPage_def

lemma poolState_pages:
  "length (pages (poolState n f)) = n + 2"
  "pages (poolState n f) ! n = securedPage 0"
  "pages (poolState n f) ! Suc n = securedPage 1"
  by (simp_all add: poolState_def nth_append del: replicate.simps)

lemma poolState_facts:
  "outcome (poolState n f) = f"
  "trace (poolState n f) = []"
  "length (pages (poolState n f)) = n + 2"
  "browser (heap (poolState n f) r) = 0"
  "pagePool (heap (poolState n f) r) = [0..<n]"
  "findInstanceByPage n (poolState n f) = Some 0"
  "findInstanceByPage (Suc n) (poolState n f) = None"
  by (simp_all add: findInstanceByPage_def poolState_pages map_defs securedPage_def)
    (simp_all add: poolState_def)

subsection \<open>Checking out\<close>

lemma takePooledPage_Some:
  "takePooledPage r st = (Some p, st') \<Longrightarrow>
   \<not> page_isClosed p st' \<and> trace st' = trace st @ [Evaluate p] \<and>
   succeeds (Evaluate p) st \<and> pages st' = pages st \<and> outcome st' = outcome st \<and>
   p \<in> set (pagePool (heap st r))"
  by (auto simp: takePooledPage_def pagePool_shift_def validatePage_def page_evaluate_def
      page_isClosed_def emit_def succeeds_def
      split: list.splits if_splits prod.splits sum.splits)

lemma takePooledPage_None:
  "takePooledPage r st = (None, st') \<Longrightarrow>
   length (pages st') = length (pages st) \<and> outcome st' = outcome st"
  by (auto simp: takePooledPage_def pagePool_shift_def validatePage_def page_evaluate_def
      page_close_def emit_def
      split: list.splits if_splits prod.splits sum.splits)

lemma tryInstance_Some:
  "tryInstance r st = (Some p, st') \<Longrightarrow>
   \<not> page_isClosed p st' \<and>
   (length (pages st) \<le> p \<or>
    (last (trace st') = Evaluate p \<and> outcome st (butlast (trace st')) (Evaluate p)))"
proof -
  assume a: "tryInstance r st = (Some p, st')"
  obtain x st1 where t: "takePooledPage r st = (x, st1)"
    by (cases "takePooledPage r st")
  show ?thesis
  proof (cases x)
    case (Some p')
    with a t have "p' = p" "st1 = st'"
      by (simp_all add: tryInstance_def)
    with takePooledPage_Some [of r st p st'] t Some show ?thesis
      by (simp add: succeeds_def)
  next
    case None
    from takePooledPage_None [of r st st1] t None
    have len: "length (pages st1) = length (pages st)" by simp
    from a t None
    have "createAndSecurePage (browser (heap st1 r)) (Some r) st1 = (Inr p, st')"
      by (auto simp: tryInstance_def Let_def split: prod.splits sum.splits)
    then have "p = length (pages st1) \<and> \<not> page_isClosed p st'"
      by (auto simp: createAndSecurePage_def createBasePage_def browser_newPage_def
          setupCoreSecurityControls_def page_isClosed_def emit_def
          split: if_splits prod.splits sum.splits)
    with len show ?thesis by auto
  qed
qed

lemma createAndSecurePage_outcome: "outcome (snd (createAndSecurePage b i st)) = outcome st"
  by (simp add: createAndSecurePage_def createBasePage_def browser_newPage_def
      setupCoreSecurityControls_def emit_def split: option.splits)

lemma tryInstance_None:
  "tryInstance r st = (None, st') \<Longrightarrow>
   length (pages st') = length (pages st) \<and> outcome st' = outcome st"
proof -
  assume a: "tryInstance r st = (None, st')"
  obtain x st1 where t: "takePooledPage r st = (x, st1)"
    by (cases "takePooledPage r st")
  from a t have None: "x = None"
    by (cases x) (simp_all add: tryInstance_def)
  from takePooledPage_None [of r st st1] t None
  have len: "length (pages st1) = length (pages st)" and out: "outcome st1 = outcome st"
    by simp_all
  from a t None show ?thesis
    using len out
    by (auto simp: tryInstance_def Let_def createAndSecurePage_def createBasePage_def
        browser_newPage_def setupCoreSecurityControls_def logger_def emit_def
        split: prod.splits sum.splits if_splits)
qed

lemma tryInstances_Some:
  "tryInstances rs st = (Some p, st') \<Longrightarrow>
   \<not> page_isClosed p st' \<and>
   (length (pages st) \<le> p \<or>
    (last (trace st') = Evaluate p \<and> outcome st (butlast (trace st')) (Evaluate p)))"
proof (induction rs arbitrary: st)
  case Nil
  then show ?case by simp
next
  case (Cons r rs)
  obtain x st1 where t: "tryInstance r st = (x, st1)"
    by (cases "tryInstance r st")
  show ?case
  proof (cases x)
    case (Some p')
    with Cons.prems t have "p' = p" "st1 = st'" by simp_all
    with tryInstance_Some [of r st p st'] t Some show ?thesis by simp
  next
    case None
    with Cons.prems t have "tryInstances rs st1 = (Some p, st')" by simp
    from Cons.IH [OF this] tryInstance_None [of r st st1] t None
    show ?thesis by simp
  qed
qed

lemma replicate_unroll: "replicate (numeral k) x = x # replicate (pred_numeral k) x"
  by (simp add: numeral_eq_Suc)

subsection \<open>What the loop over the healthy instances leaves alone\<close>

lemma page_evaluate_connects:
  "connects (trace (snd (page_evaluate p st))) = connects (trace st)"
  by (simp add: page_evaluate_def connects_emit)

lemma validatePage_connects:
  "connects (trace (snd (validatePage p st))) = connects (trace st)"
  by (simp add: validatePage_def case_prod_unfold page_evaluate_connects split: sum.splits)

lemma pagePool_shift_frame:
  "trace (snd (pagePool_shift r st)) = trace st"
  "browserInstances (snd (pagePool_shift r st)) = browserInstances st"
  "healthy (heap (snd (pagePool_shift r st)) r') = healthy (heap st r')"
  by (simp_all add: pagePool_shift_def split: list.splits)

lemma validatePage_frame:
  "browserInstances (snd (validatePage p st)) = browserInstances st"
  "heap (snd (validatePage p st)) = heap st"
  by (simp_all add: validatePage_def page_evaluate_def emit_def)

lemma page_close_browserInstances:
  "browserInstances (snd (page_close p st)) = browserInstances st"
  by (simp add: page_close_def emit_def)

lemma createAndSecurePage_browserInstances:
  "browserInstances (snd (createAndSecurePage b i st)) = browserInstances st"
  by (simp add: createAndSecurePage_def createBasePage_def browser_newPage_def
      setupCoreSecurityControls_def emit_def split: option.splits)

lemma logger_browserInstances: "browserInstances (logger l m st) = browserInstances st"
  by (simp add: logger_def emit_def)

lemma takePooledPage_frame:
  "connects (trace (snd (takePooledPage r st))) = connects (trace st)"
  "browserInstances (snd (takePooledPage r st)) = browserInstances st"
  "healthy (heap (snd (takePooledPage r st)) r') = healthy (heap st r')"
  by (simp_all add: takePooledPage_def case_prod_unfold pagePool_shift_frame
      validatePage_connects validatePage_frame page_close_connects
      page_close_browserInstances page_close_heap split: option.splits)

lemma tryInstance_frame:
  "connects (trace (snd (tryInstance r st))) = connects (trace st)"
  "browserInstances (snd (tryInstance r st)) = browserInstances st"
  "healthy (heap (snd (tryInstance r st)) r') \<Longrightarrow> healthy (heap st r')"
  "fst (tryInstance r st) = None \<Longrightarrow> \<not> healthy (heap (snd (tryInstance r st)) r)"
     apply (simp_all add: tryInstance_def case_prod_unfold Let_def takePooledPage_frame
      createAndSecurePage_connects createAndSecurePage_browserInstances
      createAndSecurePage_heap logger_connects logger_browserInstances logger_heap
      split: option.splits sum.splits)
  apply (auto simp: takePooledPage_frame split: if_splits)
  done

lemma tryInstances_frame:
  "tryInstances rs st = (x, st') \<Longrightarrow>
   connects (trace st') = connects (trace st) \<and>
   browserInstances st' = browserInstances st \<and>
   (\<forall>r'. healthy (heap st' r') \<longrightarrow> healthy (heap st r')) \<and>
   (x = None \<longrightarrow> (\<forall>r \<in> set rs. \<not> healthy (heap st' r)) \<and>
                  last (trace st') = Log Error AllInstancesFailed)"
proof (induction rs arbitrary: st)
  case Nil
  then show ?case by (auto simp: logger_def emit_def connects_append)
next
  case (Cons r rs)
  obtain y st1 where t: "tryInstance r st = (y, st1)"
    by (cases "tryInstance r st")
  note f = tryInstance_frame [of r st]
  show ?case
  proof (cases y)
    case (Some p)
    with Cons.prems t f show ?thesis by auto
  next
    case None
    with Cons.prems t have rest: "tryInstances rs st1 = (x, st')" by simp
    from Cons.IH [OF rest] f None t show ?thesis by auto
  qed
qed

subsection \<open>The map after connecting\<close>

lemma map_entries_append: "map_entries (m @ n) = map_entries m @ map_entries n"
  by (induction m rule: map_entries.induct) simp_all

lemma map_entries_delete:
  "map fst (map_entries (map_delete k m)) = filter (\<lambda>k'. k' \<noteq> k) (map fst (map_entries m))"
  unfolding map_delete_def case_prod_unfold
  by (induction m rule: map_entries.induct) simp_all

lemma map_keys_delete: "map_keys (map_delete k m) = map_keys m - {k}"
proof -
  have "set (map fst (map_entries (map_delete k m))) = set (map fst (map_entries m)) - {k}"
    unfolding map_entries_delete by auto
  then show ?thesis by (simp add: map_keys_def)
qed

lemma map_get_None_iff: "(map_get k m = None) = (k \<notin> map_keys m)"
  by (simp add: map_get_def map_keys_def map_of_eq_None_iff)

lemma map_entries_update:
  "map fst (map_entries (map (\<lambda>slot. case slot of None \<Rightarrow> None
                   | Some (k', v') \<Rightarrow> if k' = k then Some (k, v) else Some (k', v')) m))
   = map fst (map_entries m)"
  unfolding case_prod_unfold
  by (induction m rule: map_entries.induct) simp_all

lemma map_keys_update:
  "map_keys (map (\<lambda>slot. case slot of None \<Rightarrow> None
                   | Some (k', v') \<Rightarrow> if k' = k then Some (k, v) else Some (k', v')) m) = map_keys m"
proof -
  have "set (map fst (map_entries (map (\<lambda>slot. case slot of None \<Rightarrow> None
                   | Some (k', v') \<Rightarrow> if k' = k then Some (k, v) else Some (k', v')) m)))
        = set (map fst (map_entries m))"
    unfolding map_entries_update ..
  then show ?thesis by (simp add: map_keys_def)
qed

lemma map_keys_set: "map_keys (map_set k v m) = insert k (map_keys m)"
proof (cases "map_get k m = None")
  case True
  then show ?thesis
    by (simp add: map_set_def map_keys_def map_entries_append)
next
  case False
  then have "k \<in> map_keys m" by (simp add: map_get_None_iff)
  with False show ?thesis
    by (auto simp: map_set_def map_keys_update)
qed

lemma map_size_0_iff: "(map_size m = 0) = (map_keys m = {})"
  by (simp add: map_size_def map_keys_def)

lemma warmPool_browserInstances:
  "browserInstances (snd (warmPool n b r pool st)) = browserInstances st"
proof (induction n arbitrary: pool st)
  case 0
  show ?case by simp
next
  case (Suc n)
  show ?case
    using Suc.IH createAndSecurePage_browserInstances [of b "Some r" st]
    by (auto split: prod.splits sum.splits)
qed

lemma chromium_connect_browserInstances:
  "browserInstances (snd (chromium_connect ep st)) = browserInstances st"
  by (simp add: chromium_connect_def emit_def)

lemma browser_close_browserInstances:
  "browserInstances (snd (browser_close b st)) = browserInstances st"
  by (simp add: browser_close_def emit_def)

lemma connectToBrowser_try_keys:
  "map_keys (browserInstances (snd (connectToBrowser_try ep st))) =
     (if fst (chromium_connect ep st) = Inl (ConnectError ep)
      then map_keys (browserInstances st) else insert ep (map_keys (browserInstances st)))"
  by (simp add: connectToBrowser_try_def Let_def case_prod_unfold warmPool_browserInstances
      chromium_connect_browserInstances logger_browserInstances map_keys_set
      chromium_connect_def emit_def
      split: sum.splits)

lemma connectToBrowser_try_fail:
  "fst (connectToBrowser_try ep st) = Inl e \<Longrightarrow>
   fst (chromium_connect ep st) = Inl (ConnectError ep) \<or>
   ep \<in> map_keys (browserInstances (snd (connectToBrowser_try ep st)))"
  using connectToBrowser_try_keys [of ep st] by (auto split: if_splits)

lemma connectToBrowser_try_ok:
  "fst (connectToBrowser_try ep st) = Inr u \<Longrightarrow>
   map_keys (browserInstances (snd (connectToBrowser_try ep st))) =
     insert ep (map_keys (browserInstances st))"
  using connectToBrowser_try_keys [of ep st]
  by (auto simp: connectToBrowser_try_def chromium_connect_def split: if_splits)

lemma connectToBrowser_keys:
  "map_keys (browserInstances (snd (connectToBrowser ep st))) =
     (if fst (connectToBrowser ep st) = Inr () then insert ep (map_keys (browserInstances st))
      else map_keys (browserInstances st) - {ep})"
proof (cases "fst (connectToBrowser_try ep st)")
  case (Inr u)
  then show ?thesis
    using connectToBrowser_try_ok [OF Inr]
    by (simp add: connectToBrowser_def case_prod_unfold)
next
  case (Inl e)
  let ?st1 = "snd (connectToBrowser_try ep st)"
  have k: "map_keys (browserInstances ?st1) - {ep} = map_keys (browserInstances st) - {ep}"
    using connectToBrowser_try_keys [of ep st] by (auto split: if_splits)
  show ?thesis
  proof (cases "map_get ep (browserInstances ?st1)")
    case None
    then have "ep \<notin> map_keys (browserInstances ?st1)"
      by (simp add: map_get_None_iff)
    with k Inl None show ?thesis
      by (auto simp: connectToBrowser_def case_prod_unfold logger_browserInstances)
  next
    case (Some r)
    with k Inl show ?thesis
      by (simp add: connectToBrowser_def case_prod_unfold Let_def logger_browserInstances
          browser_close_browserInstances map_keys_delete)
  qed
qed

lemma connectedEndpoints_subset: "set (connectedEndpoints eps st) \<subseteq> set eps"
proof (induction eps arbitrary: st)
  case Nil
  show ?case by simp
next
  case (Cons ep eps)
  obtain res st1 where c: "connectToBrowser ep st = (res, st1)"
    by (cases "connectToBrowser ep st")
  show ?case
  proof (cases res)
    case (Inr u)
    with c Cons.IH [of st1] show ?thesis by auto
  next
    case (Inl e)
    with c Cons.IH [of "logger Error (FailedToConnect ep) st1"] show ?thesis by auto
  qed
qed

lemma connectEach_keys:
  "distinct eps \<Longrightarrow>
   map_keys (browserInstances (connectEach eps st)) =
     (map_keys (browserInstances st) - set eps) \<union> set (connectedEndpoints eps st)"
proof (induction eps arbitrary: st)
  case Nil
  show ?case by simp
next
  case (Cons ep eps)
  obtain res st1 where c: "connectToBrowser ep st = (res, st1)"
    by (cases "connectToBrowser ep st")
  note k = connectToBrowser_keys [of ep st]
  from Cons.prems have d: "distinct eps" and n: "ep \<notin> set eps" by simp_all
  show ?case
  proof (cases res)
    case (Inr u)
    with c k have k1: "map_keys (browserInstances st1) = insert ep (map_keys (browserInstances st))"
      by simp
    from c Inr Cons.IH [OF d, of st1] k1 n show ?thesis
      by auto
  next
    case (Inl e)
    with c k have k1: "map_keys (browserInstances (logger Error (FailedToConnect ep) st1))
                        = map_keys (browserInstances st) - {ep}"
      by (simp add: logger_browserInstances)
    have "ep \<notin> set (connectedEndpoints eps (logger Error (FailedToConnect ep) st1))"
      using connectedEndpoints_subset [of eps "logger Error (FailedToConnect ep) st1"] n
      by auto
    with c Inl Cons.IH [OF d, of "logger Error (FailedToConnect ep) st1"] k1 n show ?thesis
      by auto
  qed
qed

lemma failureLogs_append: "failureLogs (xs @ ys) = failureLogs xs @ failureLogs ys"
  by (induction xs rule: failureLogs.induct) simp_all

lemma failureLogs_emit:
  "failureLogs (trace (emit c st)) = failureLogs (trace st) @ failureLogs [c]"
  by (simp add: emit_def failureLogs_append)

lemma createAndSecurePage_failureLogs:
  "failureLogs (trace (snd (createAndSecurePage b i st))) = failureLogs (trace st)"
  by (simp add: createAndSecurePage_def createBasePage_def browser_newPage_def
      setupCoreSecurityControls_def failureLogs_emit split: option.splits)

lemma warmPool_failureLogs:
  "failureLogs (trace (snd (warmPool n b r pool st))) = failureLogs (trace st)"
proof (induction n arbitrary: pool st)
  case 0
  show ?case by simp
next
  case (Suc n)
  show ?case
    using Suc.IH createAndSecurePage_failureLogs [of b "Some r" st]
    by (auto split: prod.splits sum.splits)
qed

lemma connectToBrowser_try_failureLogs:
  "failureLogs (trace (snd (connectToBrowser_try ep st))) = failureLogs (trace st)"
  by (simp add: connectToBrowser_try_def Let_def case_prod_unfold warmPool_failureLogs
      chromium_connect_def logger_def failureLogs_emit emit_def failureLogs_append
      split: sum.splits)

lemma connectToBrowser_failureLogs:
  "failureLogs (trace (snd (connectToBrowser ep st))) =
     failureLogs (trace st) @ (if fst (connectToBrowser ep st) = Inr () then [] else [ep])"
  by (simp add: connectToBrowser_def Let_def case_prod_unfold connectToBrowser_try_failureLogs
      browser_close_def logger_def failureLogs_emit emit_def failureLogs_append
      split: sum.splits option.splits)

lemma connectEach_failureLogs:
  "failureLogs (trace (connectEach eps st)) =
     failureLogs (trace st) @ concat (map (\<lambda>ep. [ep, ep]) (failedEndpoints eps st))"
proof (induction eps arbitrary: st)
  case Nil
  show ?case by simp
next
  case (Cons ep eps)
  show ?case
    using connectToBrowser_failureLogs [of ep st]
    by (auto simp: Cons.IH logger_def failureLogs_emit split: prod.splits sum.splits)
qed

subsection \<open>The recovery loop\<close>

lemma emit_outcome: "outcome (emit c st) = outcome st"
  by (simp add: emit_def)

lemma logger_outcome: "outcome (logger l m st) = outcome st"
  by (simp add: logger_def emit_def)

lemma sleep_outcome: "outcome (sleep n st) = outcome st"
  by (simp add: sleep_def emit_def)

lemma page_close_outcome: "outcome (snd (page_close p st)) = outcome st"
  by (simp add: page_close_def emit_def)

lemma browser_close_outcome: "outcome (snd (browser_close b st)) = outcome st"
  by (simp add: browser_close_def emit_def)

lemma closeAll_outcome: "outcome (closeAll ps st) = outcome st"
  unfolding closeAll_def
  by (induction ps arbitrary: st) (simp_all add: page_close_outcome)

lemma chromium_connect_outcome: "outcome (snd (chromium_connect ep st)) = outcome st"
  by (simp add: chromium_connect_def emit_def)

lemma warmPool_outcome: "outcome (snd (warmPool n b r pool st)) = outcome st"
proof (induction n arbitrary: pool st)
  case 0
  show ?case by simp
next
  case (Suc n)
  show ?case
    using Suc.IH createAndSecurePage_outcome [of b "Some r" st]
    by (auto split: prod.splits sum.splits)
qed

lemma connectToBrowser_try_outcome: "outcome (snd (connectToBrowser_try ep st)) = outcome st"
  by (simp add: connectToBrowser_try_def Let_def case_prod_unfold warmPool_outcome
      chromium_connect_outcome logger_outcome split: sum.splits)

lemma connectToBrowser_outcome: "outcome (snd (connectToBrowser ep st)) = outcome st"
  by (simp add: connectToBrowser_def Let_def case_prod_unfold connectToBrowser_try_outcome
      browser_close_outcome logger_outcome split: sum.splits option.splits)

lemma reconnect_try_outcome: "outcome (snd (reconnect_try a r st)) = outcome st"
  by (simp add: reconnect_try_def Let_def case_prod_unfold connectToBrowser_outcome
      browser_close_outcome closeAll_outcome logger_outcome split: sum.splits)

lemma connectToBrowser_refused:
  "\<not> succeeds (Connect ep) st \<Longrightarrow> fst (connectToBrowser ep st) = Inl (ConnectError ep)"
  by (simp add: connectToBrowser_def connectToBrowser_try_def chromium_connect_def Let_def)

lemma reconnect_try_refused:
  assumes "\<forall>h ep. \<not> outcome st h (Connect ep)"
  shows "\<exists>e. fst (reconnect_try a r st) = Inl e"
proof -
  let ?ep = "endpoint (heap st r)"
  let ?st1 = "logger Info (AttemptingReconnect ?ep a) st"
  let ?st2 = "?st1\<lparr>browserInstances := map_delete ?ep (browserInstances ?st1)\<rparr>"
  let ?st3 = "closeAll (pagePool (heap ?st2 r)) ?st2"
  let ?st4 = "snd (browser_close (browser (heap ?st3 r)) ?st3)"
  have "outcome ?st4 = outcome st"
    by (simp add: browser_close_outcome closeAll_outcome logger_outcome)
  with assms have "\<not> succeeds (Connect (endpoint (heap ?st4 r))) ?st4"
    by (simp add: succeeds_def)
  from connectToBrowser_refused [OF this] show ?thesis
    by (simp add: reconnect_try_def Let_def case_prod_unfold)
qed

lemma reconnectLoop_refused:
  "\<forall>h ep. \<not> outcome st h (Connect ep) \<Longrightarrow> reconnectLoop fuel vars r st = None"
proof (induction fuel arbitrary: vars st)
  case 0
  show ?case by simp
next
  case (Suc fuel)
  obtain d a where vars: "vars = (d, a)" by (cases vars)
  from reconnect_try_refused [OF Suc.prems, of a r]
  obtain e where f: "fst (reconnect_try a r st) = Inl e" ..
  let ?st1 = "snd (reconnect_try a r st)"
  let ?st3 = "sleep (backoffDelay a)
               (logger Error (ReconnectAttemptFailed a (endpoint (heap ?st1 r)) (backoffDelay a)) ?st1)"
  have "outcome ?st3 = outcome st"
    by (simp add: sleep_outcome logger_outcome reconnect_try_outcome)
  with Suc.prems have "\<forall>h ep. \<not> outcome ?st3 h (Connect ep)" by simp
  from Suc.IH [OF this] f show ?case
    by (simp add: vars case_prod_unfold Let_def)
qed

lemma reconnectLoop_Some_last:
  "reconnectLoop fuel vars r st = Some (vars', st') \<Longrightarrow>
   \<exists>ep. last (trace st') = Log Info (SuccessfullyReconnected ep)"
proof (induction fuel arbitrary: vars st)
  case 0
  then show ?case by simp
next
  case (Suc fuel)
  obtain d a where vars: "vars = (d, a)" by (cases vars)
  obtain res st1 where t: "reconnect_try a r st = (res, st1)"
    by (cases "reconnect_try a r st")
  show ?case
  proof (cases res)
    case (Inr u)
    with Suc.prems t vars have "st' = st1" by simp
    moreover from t Inr have "\<exists>ep. last (trace st1) = Log Info (SuccessfullyReconnected ep)"
      by (auto simp: reconnect_try_def Let_def logger_def emit_def
          split: prod.splits sum.splits)
    ultimately show ?thesis by simp
  next
    case (Inl e)
    with Suc.prems t vars Suc.IH show ?thesis
      by (simp add: Let_def)
  qed
qed

lemma attemptRecovery_never_throws:
  "attemptRecovery fuel (Some r) st \<noteq> Some (Inl e, st')"
  by (simp add: attemptRecovery_def split: option.splits)

lemma checkBrowserHealth_never_throws:
  "checkBrowserHealth fuel r st \<noteq> Some (Inl e, st')"
  by (simp add: checkBrowserHealth_def Let_def attemptRecovery_never_throws
      split: prod.splits sum.splits)

lemma healthCheckLoop_never_throws:
  "healthCheckLoop fuel i st \<noteq> Some (Inl e, st')"
proof (induction fuel arbitrary: i st)
  case 0
  show ?case by simp
next
  case (Suc fuel)
  show ?case
    using Suc.IH checkBrowserHealth_never_throws
    by (auto split: option.splits prod.splits sum.splits)
qed

subsection \<open>The bound on the pools, call by call\<close>

lemma pool_step_refl: "pool_step st st"
  by (simp add: pool_step_def)

lemma pool_step_trans: "pool_step st st1 \<Longrightarrow> pool_step st1 st2 \<Longrightarrow> pool_step st st2"
  unfolding pool_step_def
  apply (intro conjI allI ballI)
   apply (metis max.absorb2 max.cobounded2 max.coboundedI1 max_def order_trans)
  apply (metis max.absorb2 max.cobounded2 max_def order_trans)
  done

lemma pool_step_bounded: "pool_bounded st \<Longrightarrow> pool_step st st' \<Longrightarrow> pool_bounded st'"
  unfolding pool_step_def pool_bounded_def
  by (metis max.absorb2 max_def)

lemma pool_step_same:
  "heap st' = heap st \<Longrightarrow> browserInstances st' = browserInstances st \<Longrightarrow> pool_step st st'"
  by (simp add: pool_step_def)

lemma warmPool_heap: "heap (snd (warmPool n b r pool st)) = heap st"
proof (induction n arbitrary: pool st)
  case 0
  show ?case by simp
next
  case (Suc n)
  show ?case
    using Suc.IH createAndSecurePage_heap [of b "Some r" st]
    by (auto split: prod.splits sum.splits)
qed

lemma warmPool_length:
  "fst (warmPool n b r pool st) = Inr pool' \<Longrightarrow> length pool' = length pool + n"
proof (induction n arbitrary: pool st)
  case 0
  then show ?case by simp
next
  case (Suc n)
  then show ?case
    by (auto split: prod.splits sum.splits)
qed

lemma chromium_connect_heap: "heap (snd (chromium_connect ep st)) = heap st"
  by (simp add: chromium_connect_def emit_def)

lemma browser_close_heap: "heap (snd (browser_close b st)) = heap st"
  by (simp add: browser_close_def emit_def)

lemma closeAll_heap: "heap (closeAll ps st) = heap st"
  unfolding closeAll_def
  by (induction ps arbitrary: st) (simp_all add: page_close_heap)

lemma closeAll_browserInstances: "browserInstances (closeAll ps st) = browserInstances st"
  unfolding closeAll_def
  by (induction ps arbitrary: st) (simp_all add: page_close_browserInstances)

lemma map_entries_set_subset:
  "set (map_entries (map_set k v m)) \<subseteq> insert (k, v) (set (map_entries m))"
proof -
  have "set (map_entries (map (\<lambda>slot. case slot of None \<Rightarrow> None
                   | Some (k', v') \<Rightarrow> if k' = k then Some (k, v) else Some (k', v')) m))
        \<subseteq> insert (k, v) (set (map_entries m))"
    by (induction m rule: map_entries.induct) (auto split: if_splits)
  then show ?thesis
    by (auto simp: map_set_def map_entries_append)
qed

lemma map_entries_delete_subset:
  "set (map_entries (map_delete k m)) \<subseteq> set (map_entries m)"
  unfolding map_delete_def
  by (induction m rule: map_entries.induct) (auto split: if_splits)

lemma connectToBrowser_try_pool_step: "pool_step st (snd (connectToBrowser_try ep st))"
proof (cases "succeeds (Connect ep) st")
  case False
  then show ?thesis
    by (simp add: connectToBrowser_try_def chromium_connect_def pool_step_same emit_def)
next
  case True
  let ?st1 = "snd (chromium_connect ep st)"
  let ?b = "length (browsers st)"
  let ?n = "nextRef st"
  let ?inst = "\<lparr>browser = ?b, pagePool = [], endpoint = ep, healthy = True,
                 lastHealthCheck = length (trace ?st1), markedForShutdown = None\<rparr>"
  let ?st2 = "?st1\<lparr>heap := (heap ?st1)(?n := ?inst), nextRef := Suc ?n,
                     browserInstances := map_set ep ?n (browserInstances ?st1)\<rparr>"
  let ?w = "warmPool PAGE_POOL_SIZE ?b ?n [] ?st2"
  have c: "fst (chromium_connect ep st) = Inr ?b"
    using True by (simp add: chromium_connect_def)
  have n1: "nextRef ?st1 = ?n" "heap ?st1 = heap st" "browserInstances ?st1 = browserInstances st"
    using True by (simp_all add: chromium_connect_def emit_def)
  have h3: "heap (snd ?w) = (heap st)(?n := ?inst)"
    by (simp add: warmPool_heap n1)
  have r3: "browserInstances (snd ?w) = map_set ep ?n (browserInstances st)"
    by (simp add: warmPool_browserInstances n1)
  have unf: "connectToBrowser_try ep st =
      (case ?w of (Inl e, st3) \<Rightarrow> (Inl e, st3)
       | (Inr pool, st3) \<Rightarrow>
           (Inr (), logger Info (ConnectedWithPages ep (length pool))
              (st3\<lparr>heap := (heap st3)(?n := (heap st3 ?n)\<lparr>pagePool := pool\<rparr>)\<rparr>)))"
    by (simp add: connectToBrowser_try_def c n1 Let_def case_prod_unfold)
  show ?thesis
  proof (cases "fst ?w")
    case (Inl e)
    then have st': "snd (connectToBrowser_try ep st) = snd ?w"
      by (simp add: unf case_prod_unfold)
    show ?thesis
      unfolding pool_step_def st' h3 r3
      using map_entries_set_subset [of ep ?n "browserInstances st"]
      by auto
  next
    case (Inr pool)
    then have len: "length pool = PAGE_POOL_SIZE"
      using warmPool_length [of PAGE_POOL_SIZE ?b ?n "[]" ?st2 pool] by simp
    from Inr have hp: "heap (snd (connectToBrowser_try ep st)) =
        (heap st)(?n := ?inst\<lparr>pagePool := pool\<rparr>)"
      and rg: "browserInstances (snd (connectToBrowser_try ep st)) =
        map_set ep ?n (browserInstances st)"
      by (simp_all add: unf case_prod_unfold logger_heap logger_browserInstances h3 r3)
    show ?thesis
      unfolding pool_step_def hp rg
      using map_entries_set_subset [of ep ?n "browserInstances st"] len
      by auto
  qed
qed

lemma connectToBrowser_pool_step: "pool_step st (snd (connectToBrowser ep st))"
proof -
  let ?st1 = "snd (connectToBrowser_try ep st)"
  note s1 = connectToBrowser_try_pool_step [of st ep]
  show ?thesis
  proof (cases "fst (connectToBrowser_try ep st)")
    case (Inr u)
    with s1 show ?thesis by (simp add: connectToBrowser_def case_prod_unfold)
  next
    case (Inl e)
    let ?st2 = "(case map_get ep (browserInstances ?st1) of
                        None \<Rightarrow> ?st1
                      | Some r \<Rightarrow>
                          (let st' = snd (browser_close (browser (heap ?st1 r)) ?st1)
                           in st'\<lparr>browserInstances := map_delete ep (browserInstances st')\<rparr>))"
    have "pool_step ?st1 ?st2"
      using map_entries_delete_subset [of ep "browserInstances ?st1"]
      by (auto simp: pool_step_def Let_def browser_close_heap browser_close_browserInstances
          split: option.splits)
    then have "pool_step ?st1 (logger Error (FailedToConnect ep) ?st2)"
      by (simp add: pool_step_def logger_heap logger_browserInstances)
    with s1 Inl show ?thesis
      by (auto simp: connectToBrowser_def case_prod_unfold Let_def intro: pool_step_trans)
  qed
qed

lemma pool_step_pools:
  "(\<And>r. length (pagePool (heap st' r)) \<le> length (pagePool (heap st r))) \<Longrightarrow>
   set (map_entries (browserInstances st')) \<subseteq> set (map_entries (browserInstances st)) \<Longrightarrow>
   pool_step st st'"
  unfolding pool_step_def
  by (auto simp: max_def intro: order_trans)

lemma pool_step_logger: "pool_step st st' \<Longrightarrow> pool_step st (logger l m st')"
  by (simp add: pool_step_def logger_heap logger_browserInstances)

lemma connectEach_pool_step: "pool_step st (connectEach eps st)"
proof (induction eps arbitrary: st)
  case Nil
  show ?case by (simp add: pool_step_refl)
next
  case (Cons ep eps)
  obtain res st1 where c: "connectToBrowser ep st = (res, st1)"
    by (cases "connectToBrowser ep st")
  have s1: "pool_step st st1"
    using connectToBrowser_pool_step [of st ep] c by simp
  show ?case
  proof (cases res)
    case (Inr u)
    with c s1 Cons.IH [of st1] show ?thesis
      by (auto intro: pool_step_trans)
  next
    case (Inl e)
    from s1 have "pool_step st (logger Error (FailedToConnect ep) st1)"
      by (rule pool_step_logger)
    with c Inl Cons.IH [of "logger Error (FailedToConnect ep) st1"] show ?thesis
      by (auto intro: pool_step_trans)
  qed
qed

lemma initializeConnections_pool_step: "pool_step st (snd (initializeConnections st))"
  by (simp add: initializeConnections_def Let_def pool_step_refl connectEach_pool_step)

lemma takePooledPage_pools:
  "length (pagePool (heap (snd (takePooledPage r st)) r')) \<le> length (pagePool (heap st r'))"
  by (simp add: takePooledPage_def case_prod_unfold pagePool_shift_def validatePage_frame
      page_close_heap split: option.splits list.splits)

lemma tryInstance_pools:
  "length (pagePool (heap (snd (tryInstance r st)) r')) \<le> length (pagePool (heap st r'))"
  by (auto simp: tryInstance_def case_prod_unfold Let_def createAndSecurePage_heap logger_heap
      takePooledPage_pools split: option.splits sum.splits)

lemma tryInstance_pool_step: "pool_step st (snd (tryInstance r st))"
  by (rule pool_step_pools) (simp_all add: tryInstance_pools tryInstance_frame)

lemma tryInstances_pool_step: "pool_step st (snd (tryInstances rs st))"
proof (induction rs arbitrary: st)
  case Nil
  show ?case by (simp add: pool_step_logger pool_step_refl)
next
  case (Cons r rs)
  obtain x st1 where t: "tryInstance r st = (x, st1)"
    by (cases "tryInstance r st")
  have s1: "pool_step st st1"
    using tryInstance_pool_step [of st r] t by simp
  show ?case
  proof (cases x)
    case (Some p)
    with t s1 show ?thesis by simp
  next
    case None
    with t s1 Cons.IH [of st1] show ?thesis
      by (auto intro: pool_step_trans)
  qed
qed

lemma getAvailablePage_pool_step: "pool_step st (snd (getAvailablePage st))"
proof (cases "length (healthyInstances st) = 0")
  case True
  have "pool_step st (logger Warn NoHealthyInstances st)"
    by (simp add: pool_step_logger pool_step_refl)
  moreover have "pool_step (logger Warn NoHealthyInstances st)
           (snd (initializeConnections (logger Warn NoHealthyInstances st)))"
    by (rule initializeConnections_pool_step)
  ultimately have "pool_step st (snd (initializeConnections (logger Warn NoHealthyInstances st)))"
    by (rule pool_step_trans)
  with True show ?thesis
    by (simp add: getAvailablePage_def attemptRecovery_all_def case_prod_unfold
        split: sum.splits)
next
  case False
  then show ?thesis
    using tryInstances_pool_step [of st "healthyInstances st"]
    by (simp add: getAvailablePage_def case_prod_unfold Let_def)
qed

lemma page_goto_browserInstances:
  "browserInstances (snd (page_goto p u t st)) = browserInstances st"
  by (simp add: page_goto_def emit_def)

lemma resetPage_browserInstances:
  "browserInstances (snd (resetPage p st)) = browserInstances st"
  by (simp add: resetPage_def case_prod_unfold Let_def page_close_browserInstances
      page_goto_browserInstances logger_browserInstances createAndSecurePage_browserInstances
      split: option.splits sum.splits)

lemma returnPage_try_frame:
  "browserInstances (snd (returnPage_try r p st)) = browserInstances st"
  "length (pagePool (heap (snd (returnPage_try r p st)) r')) \<le>
     max (length (pagePool (heap st r'))) PAGE_POOL_SIZE"
  by (simp_all add: returnPage_try_def case_prod_unfold resetPage_browserInstances
      resetPage_heap page_close_heap page_close_browserInstances split: sum.splits)

lemma returnPage_pool_step: "pool_step st (snd (returnPage p st))"
proof -
  have "browserInstances (snd (returnPage p st)) = browserInstances st"
    by (simp add: returnPage_def case_prod_unfold returnPage_try_frame
        page_close_browserInstances logger_browserInstances split: option.splits sum.splits)
  moreover
  have "length (pagePool (heap (snd (returnPage p st)) r')) \<le>
     max (length (pagePool (heap st r'))) PAGE_POOL_SIZE" for r'
    by (simp add: returnPage_def case_prod_unfold returnPage_try_frame
        page_close_heap logger_heap split: option.splits sum.splits)
  ultimately show ?thesis
    by (simp add: pool_step_def)
qed

lemma map_entries_clear: "map_entries (map_clear m) = []"
  unfolding map_clear_def by (induction m) simp_all

lemma cleanup_pool_bounded: "pool_bounded (cleanup st)"
  by (simp add: cleanup_def Let_def pool_bounded_def map_entries_clear)

lemma reconnect_try_pool_step: "pool_step st (snd (reconnect_try a r st))"
proof -
  let ?ep = "endpoint (heap st r)"
  let ?st1 = "logger Info (AttemptingReconnect ?ep a) st"
  let ?st2 = "?st1\<lparr>browserInstances := map_delete ?ep (browserInstances ?st1)\<rparr>"
  let ?st3 = "closeAll (pagePool (heap ?st2 r)) ?st2"
  let ?st4 = "snd (browser_close (browser (heap ?st3 r)) ?st3)"
  let ?c = "connectToBrowser (endpoint (heap ?st4 r)) ?st4"
  have "pool_step st ?st4"
    using map_entries_delete_subset [of ?ep "browserInstances st"]
    by (intro pool_step_pools)
      (simp_all add: browser_close_heap browser_close_browserInstances closeAll_heap
        closeAll_browserInstances logger_heap logger_browserInstances)
  moreover have "pool_step ?st4 (snd ?c)"
    by (rule connectToBrowser_pool_step)
  ultimately have s5: "pool_step st (snd ?c)"
    by (rule pool_step_trans)
  then have "pool_step st (logger Info (SuccessfullyReconnected (endpoint (heap (snd ?c) r))) (snd ?c))"
    by (rule pool_step_logger)
  with s5 show ?thesis
    by (simp add: reconnect_try_def Let_def case_prod_unfold split: sum.splits)
qed

lemma reconnectLoop_pool_step:
  "reconnectLoop fuel vars r st = Some (vars', st') \<Longrightarrow> pool_step st st'"
proof (induction fuel arbitrary: vars st)
  case 0
  then show ?case by simp
next
  case (Suc fuel)
  obtain d a where vars: "vars = (d, a)" by (cases vars)
  obtain res st1 where t: "reconnect_try a r st = (res, st1)"
    by (cases "reconnect_try a r st")
  have s1: "pool_step st st1"
    using reconnect_try_pool_step [of st a r] t by simp
  show ?case
  proof (cases res)
    case (Inr u)
    with Suc.prems t vars s1 show ?thesis by simp
  next
    case (Inl e)
    let ?st3 = "sleep (backoffDelay a)
                 (logger Error (ReconnectAttemptFailed a (endpoint (heap st1 r)) (backoffDelay a)) st1)"
    have "pool_step st1 ?st3"
      by (simp add: pool_step_def sleep_def logger_def emit_def)
    with s1 have s3: "pool_step st ?st3" by (rule pool_step_trans)
    from Suc.prems t vars Inl
    have "reconnectLoop fuel (backoffDelay a, a + 1) r ?st3 = Some (vars', st')"
      by (simp add: Let_def)
    from Suc.IH [OF this] s3 show ?thesis by (rule pool_step_trans [rotated])
  qed
qed

lemma attemptRecovery_pool_step:
  "attemptRecovery fuel inst st = Some (res, st') \<Longrightarrow> pool_step st st'"
proof (cases inst)
  case None
  assume "attemptRecovery fuel inst st = Some (res, st')"
  with None have "st' = snd (initializeConnections st)"
    by (auto simp: attemptRecovery_def attemptRecovery_all_def)
  then show ?thesis by (simp add: initializeConnections_pool_step)
next
  case (Some r)
  assume "attemptRecovery fuel inst st = Some (res, st')"
  with Some show ?thesis
    by (auto simp: attemptRecovery_def split: option.splits dest: reconnectLoop_pool_step)
qed

lemma browser_isConnected_frame:
  "heap (snd (browser_isConnected b st)) = heap st"
  "browserInstances (snd (browser_isConnected b st)) = browserInstances st"
  by (simp_all add: browser_isConnected_def emit_def)

lemma checkBrowserHealth_try_frame:
  "pagePool (heap (snd (checkBrowserHealth_try r st)) r') = pagePool (heap st r')"
  "browserInstances (snd (checkBrowserHealth_try r st)) = browserInstances st"
  by (simp_all add: checkBrowserHealth_try_def case_prod_unfold browser_isConnected_frame
      createAndSecurePage_heap createAndSecurePage_browserInstances page_goto_heap
      page_goto_browserInstances page_close_heap page_close_browserInstances
      split: sum.splits)

lemma checkBrowserHealth_pool_step:
  assumes "checkBrowserHealth fuel r st = Some (res, st')"
  shows "pool_step st st'"
proof -
  let ?st1 = "snd (checkBrowserHealth_try r st)"
  have s1: "pool_step st ?st1"
    by (simp add: pool_step_def checkBrowserHealth_try_frame)
  show ?thesis
  proof (cases "fst (checkBrowserHealth_try r st)")
    case (Inr u)
    with assms have "st' = ?st1"
      by (simp add: checkBrowserHealth_def case_prod_unfold)
    with s1 show ?thesis by simp
  next
    case (Inl e)
    let ?st2 = "?st1\<lparr>heap := (heap ?st1)(r := (heap ?st1 r)\<lparr>healthy := False\<rparr>)\<rparr>"
    let ?st3 = "logger Error (InstanceUnhealthy (endpoint (heap ?st2 r))) ?st2"
    have "pool_step ?st1 ?st3"
      by (simp add: pool_step_def logger_heap logger_browserInstances)
    with s1 have s3: "pool_step st ?st3" by (rule pool_step_trans)
    from assms Inl have "attemptRecovery fuel (Some r) ?st3 = Some (res, st')"
      by (simp add: checkBrowserHealth_def case_prod_unfold Let_def)
    from attemptRecovery_pool_step [OF this] s3 show ?thesis
      by (rule pool_step_trans [rotated])
  qed
qed

lemma healthCheckLoop_pool_step:
  "healthCheckLoop fuel i st = Some (res, st') \<Longrightarrow> pool_step st st'"
proof (induction fuel arbitrary: i st)
  case 0
  then show ?case by simp
next
  case (Suc fuel)
  show ?case
  proof (cases "map_next i (browserInstances st)")
    case None
    with Suc.prems show ?thesis by (simp add: pool_step_refl)
  next
    case (Some x)
    obtain ep r i' where x: "x = ((ep, r), i')" by (cases x) auto
    show ?thesis
    proof (cases "checkBrowserHealth fuel r st")
      case None
      with Suc.prems Some x show ?thesis by simp
    next
      case (Some y)
      obtain res1 st1 where y: "y = (res1, st1)" by (cases y)
      note s1 = checkBrowserHealth_pool_step [of fuel r st res1 st1]
      show ?thesis
      proof (cases res1)
        case (Inl e)
        with Suc.prems \<open>map_next i (browserInstances st) = Some x\<close> x Some y s1
        show ?thesis by simp
      next
        case (Inr u)
        with Suc.prems \<open>map_next i (browserInstances st) = Some x\<close> x Some y
        have "healthCheckLoop fuel i' st1 = Some (res, st')" by simp
        from Suc.IH [OF this] s1 Some y show ?thesis
          by (auto intro: pool_step_trans)
      qed
    qed
  qed
qed

lemma createAndSecurePage_result:
  "fst (createAndSecurePage b (Some r) st) = Inr p \<Longrightarrow>
   p = length (pages st) \<and>
   length (pages (snd (createAndSecurePage b (Some r) st))) = Suc (length (pages st))"
  by (cases "succeeds (NewPage b) st")
    (simp_all add: createAndSecurePage_new createAndSecurePage_fail)

lemma createAndSecurePage_pages_length:
  "length (pages st) \<le> length (pages (snd (createAndSecurePage b i st)))"
  by (simp add: createAndSecurePage_def createBasePage_def browser_newPage_def
      setupCoreSecurityControls_def emit_def split: option.splits)

lemma warmPool_result:
  "fst (warmPool n b r pool st) = Inr pool' \<Longrightarrow>
   pool' = pool @ [length (pages st)..<length (pages st) + n] \<and>
   length (pages (snd (warmPool n b r pool st))) = length (pages st) + n"
proof (induction n arbitrary: pool st)
  case 0
  then show ?case by simp
next
  case (Suc n)
  obtain res st1 where c: "createAndSecurePage b (Some r) st = (res, st1)"
    by (cases "createAndSecurePage b (Some r) st")
  show ?case
  proof (cases res)
    case (Inl e)
    with Suc.prems c show ?thesis by simp
  next
    case (Inr p)
    with c createAndSecurePage_result [of b r st p]
    have p: "p = length (pages st)" and l: "length (pages st1) = Suc (length (pages st))"
      by simp_all
    from Suc.prems c Inr have "fst (warmPool n b r (pool @ [p]) st1) = Inr pool'" by simp
    from Suc.IH [OF this] p l c Inr show ?thesis
      by (simp add: upt_conv_Cons)
  qed
qed

lemma map_get_set: "map_get k (map_set k v m) = Some v"
proof (cases "map_get k m = None")
  case True
  then show ?thesis
    by (simp add: map_set_def map_get_def map_entries_append map_add_def
        split: option.splits)
next
  case False
  have "map_of (map_entries (map (\<lambda>slot. case slot of None \<Rightarrow> None
                   | Some (k', v') \<Rightarrow> if k' = k then Some (k, v) else Some (k', v')) m)) k
        = (if map_of (map_entries m) k = None then None else Some v)"
    by (induction m rule: map_entries.induct) (auto split: if_splits)
  moreover from False have "map_set k v m = map (\<lambda>slot. case slot of None \<Rightarrow> None
                   | Some (k', v') \<Rightarrow> if k' = k then Some (k, v) else Some (k', v')) m"
    by (simp add: map_set_def)
  moreover from False have "map_of (map_entries m) k \<noteq> None"
    by (simp add: map_get_def)
  ultimately show ?thesis
    by (simp add: map_get_def)
qed

lemma connectToBrowser_warm:
  assumes "fst (connectToBrowser ep st) = Inr ()"
  shows "map_get ep (browserInstances (snd (connectToBrowser ep st))) = Some (nextRef st) \<and>
         pagePool (heap (snd (connectToBrowser ep st)) (nextRef st)) =
           [length (pages st)..<length (pages st) + PAGE_POOL_SIZE] \<and>
         length (pages (snd (connectToBrowser ep st))) = length (pages st) + PAGE_POOL_SIZE"
proof -
  from assms have t: "fst (connectToBrowser_try ep st) = Inr ()"
    and eq: "snd (connectToBrowser ep st) = snd (connectToBrowser_try ep st)"
    by (auto simp: connectToBrowser_def case_prod_unfold Let_def split: sum.splits)
  from t have ok: "succeeds (Connect ep) st"
    by (auto simp: connectToBrowser_try_def chromium_connect_def split: if_splits)
  let ?st1 = "snd (chromium_connect ep st)"
  let ?b = "length (browsers st)"
  let ?n = "nextRef st"
  let ?inst = "\<lparr>browser = ?b, pagePool = [], endpoint = ep, healthy = True,
                 lastHealthCheck = length (trace ?st1), markedForShutdown = None\<rparr>"
  let ?st2 = "?st1\<lparr>heap := (heap ?st1)(?n := ?inst), nextRef := Suc ?n,
                     browserInstances := map_set ep ?n (browserInstances ?st1)\<rparr>"
  let ?w = "warmPool PAGE_POOL_SIZE ?b ?n [] ?st2"
  have c: "fst (chromium_connect ep st) = Inr ?b"
    using ok by (simp add: chromium_connect_def)
  have n1: "nextRef ?st1 = ?n" "heap ?st1 = heap st" "browserInstances ?st1 = browserInstances st"
    "pages ?st1 = pages st"
    using ok by (simp_all add: chromium_connect_def emit_def)
  have unf: "connectToBrowser_try ep st =
      (case ?w of (Inl e, st3) \<Rightarrow> (Inl e, st3)
       | (Inr pool, st3) \<Rightarrow>
           (Inr (), logger Info (ConnectedWithPages ep (length pool))
              (st3\<lparr>heap := (heap st3)(?n := (heap st3 ?n)\<lparr>pagePool := pool\<rparr>)\<rparr>)))"
    by (simp add: connectToBrowser_try_def c n1 Let_def case_prod_unfold)
  from t obtain pool where w: "fst ?w = Inr pool"
    by (auto simp: unf case_prod_unfold split: sum.splits)
  from warmPool_result [OF w]
  have pool: "pool = [length (pages st)..<length (pages st) + PAGE_POOL_SIZE]"
    and len: "length (pages (snd ?w)) = length (pages st) + PAGE_POOL_SIZE"
    by (simp_all add: n1)
  have st': "snd (connectToBrowser_try ep st) =
      logger Info (ConnectedWithPages ep (length pool))
        ((snd ?w)\<lparr>heap := (heap (snd ?w))(?n := (heap (snd ?w) ?n)\<lparr>pagePool := pool\<rparr>)\<rparr>)"
    using w by (simp add: unf case_prod_unfold)
  have a: "map_get ep (browserInstances (snd (connectToBrowser ep st))) = Some (nextRef st)"
    unfolding eq st'
    by (simp add: logger_browserInstances warmPool_browserInstances n1 map_get_set)
  have b: "pagePool (heap (snd (connectToBrowser ep st)) (nextRef st)) = pool"
    unfolding eq st'
    by (simp add: logger_heap)
  have "pages (snd (connectToBrowser ep st)) = pages (snd ?w)"
    unfolding eq st'
    by (simp add: logger_pages)
  with len have c: "length (pages (snd (connectToBrowser ep st))) =
      length (pages st) + PAGE_POOL_SIZE"
    by simp
  from a b c pool show ?thesis by simp
qed

lemma returnPage_pushes_with_room:
  "pagePool (heap (snd (returnPage p st)) r') = pagePool (heap st r') \<or>
   (length (pagePool (heap st r')) < PAGE_POOL_SIZE \<and>
    (\<exists>q. pagePool (heap (snd (returnPage p st)) r') = pagePool (heap st r') @ [q]))"
  by (auto simp: returnPage_def returnPage_try_def case_prod_unfold resetPage_heap
      page_close_heap logger_heap split: option.splits sum.splits if_splits)

lemma returnPage_split:
  "snd (returnPage p st) =
     (case returnPage_begin p st of
        (None, st1) \<Rightarrow> st1
      | (Some k, st1) \<Rightarrow> returnPage_resume k st1)"
proof (cases "findInstanceByPage p st")
  case None
  then show ?thesis by (simp add: returnPage_begin_def)
next
  case (Some r)
  show ?thesis
  proof (cases "length (pagePool (heap st r)) < PAGE_POOL_SIZE")
    case False
    with Some show ?thesis by (simp add: returnPage_begin_def)
  next
    case True
    with Some show ?thesis
      by (simp add: returnPage_begin_def returnPage_def returnPage_try_def resetPage_def
          case_prod_unfold Let_def page_goto_heap page_close_heap
          split: sum.splits)
  qed
qed

text \<open>
  Every method, run from its first line to its return, keeps the bound; and the
  shutdown handler leaves an empty map.
\<close>

lemma pool_bounded_preserved:
  assumes "pool_bounded st"
  shows "pool_bounded (snd (connectToBrowser ep st))"
    and "pool_bounded (snd (initializeConnections st))"
    and "pool_bounded (snd (getAvailablePage st))"
    and "pool_bounded (snd (returnPage p st))"
    and "checkBrowserHealth fuel r st = Some (res, st') \<Longrightarrow> pool_bounded st'"
    and "attemptRecovery fuel inst st = Some (res, st') \<Longrightarrow> pool_bounded st'"
    and "healthCheckTick fuel st = Some (res, st') \<Longrightarrow> pool_bounded st'"
  using assms
  by (auto simp: healthCheckTick_def
      intro: pool_step_bounded connectToBrowser_pool_step initializeConnections_pool_step
        getAvailablePage_pool_step returnPage_pool_step checkBrowserHealth_pool_step
        attemptRecovery_pool_step healthCheckLoop_pool_step)

subsection \<open>Two returns that overlap\<close>

lemma checkouts_unroll: "checkouts (numeral k) st = checkouts (pred_numeral k) (snd (getAvailablePage st))"
  by (simp add: numeral_eq_Suc)

lemma busyState_facts:
  "pagePool (heap busyState 0) = [0, 1, 2, 3, 4, 5, 6, 7, 8]"
  "findInstanceByPage 9 busyState = Some 0"
  "findInstanceByPage 10 busyState = Some 0"
  "outcome busyState = (\<lambda>h c. True)"
  by (simp_all add: busyState_def freshManager_def world_defs map_defs manager_defs const_defs
        unroll checkouts_unroll Let_def cong: let_weak_cong)

lemma emit_heap: "heap (emit c st) = heap st"
  by (simp add: emit_def)

lemma findInstanceByPage_emit: "findInstanceByPage p (emit c st) = findInstanceByPage p st"
  by (simp add: findInstanceByPage_def emit_def)

lemma returnPage_begin_room:
  "findInstanceByPage p st = Some r \<Longrightarrow> length (pagePool (heap st r)) < PAGE_POOL_SIZE \<Longrightarrow>
   returnPage_begin p st =
     (Some (PendingReturn r r p
        (if succeeds (Goto p ''about:blank'' (Some 500)) st then Inr () else Inl (GotoError p))),
      emit (Goto p ''about:blank'' (Some 500)) st)"
  by (simp add: returnPage_begin_def page_goto_def)



subsection \<open>Exhausted candidates\<close>

lemma tryInstance_None_iff: "(fst (tryInstance r st) = None) = candidateFails r st"
  by (auto simp: tryInstance_def takePooledPage_def pagePool_shift_def validatePage_def
      page_evaluate_def page_close_def createAndSecurePage_def createBasePage_def
      browser_newPage_def setupCoreSecurityControls_def candidateFails_def succeeds_def
      emit_def logger_def Let_def page_isClosed_def
      split: list.splits)

lemma tryInstances_None_iff: "(fst (tryInstances rs st) = None) = exhausted rs st"
proof (induction rs arbitrary: st)
  case Nil
  show ?case by simp
next
  case (Cons r rs)
  show ?case
  proof (cases "fst (tryInstance r st)")
    case None
    then have "tryInstances (r # rs) st = tryInstances rs (snd (tryInstance r st))"
      by (simp add: case_prod_unfold)
    with Cons.IH [of "snd (tryInstance r st)"] None tryInstance_None_iff [of r st]
    show ?thesis by simp
  next
    case (Some p)
    then have "fst (tryInstances (r # rs) st) = Some p"
      by (simp add: case_prod_unfold)
    with Some tryInstance_None_iff [of r st] show ?thesis by simp
  qed
qed

subsection \<open>The parts of bringing the connections up\<close>

lemma connectEach_attempts: "connectEach eps st = fold initializeConnections_attempt eps st"
  by (induction eps arbitrary: st)
    (simp_all add: initializeConnections_attempt_def case_prod_unfold split: sum.splits)

lemma initializeConnections_split:
  "initializeConnections st =
     (case initializeConnections_begin st of
        Inl e \<Rightarrow> (Inl e, st)
      | Inr endpoints \<Rightarrow>
          initializeConnections_end (fold initializeConnections_attempt endpoints st))"
  by (simp add: initializeConnections_def initializeConnections_begin_def
      initializeConnections_end_def connectEach_attempts Let_def)

subsection \<open>Where a page is reset from\<close>

lemma returnPage_begin_owner:
  "fst (returnPage_begin p st) = Some (PendingReturn r1 r2 q res) \<Longrightarrow>
   findInstanceByPage p st = Some r1 \<and> r2 = r1 \<and> q = p \<and>
   res = fst (page_goto p ''about:blank'' (Some 500) st)"
  by (auto simp: returnPage_begin_def case_prod_unfold split: option.splits if_splits)

subsection \<open>What a health check leaves alone\<close>

lemma sameManager_refl: "sameManager st st"
  by (simp add: sameManager_def)

lemma sameManager_trans: "sameManager st st1 \<Longrightarrow> sameManager st1 st2 \<Longrightarrow> sameManager st st2"
  by (auto simp: sameManager_def)

lemma sameManager_keeps: "sameManager st st' \<Longrightarrow> keeps ep st st'"
  by (auto simp: sameManager_def keeps_def wellFormed_def)

lemma keeps_refl: "keeps ep st st"
  by (simp add: keeps_def)

lemma keeps_trans:
  assumes "keeps ep st st1" "keeps ep st1 st2"
  shows "keeps ep st st2"
proof -
  from assms have "\<exists>ext. trace st2 = trace st @ ext"
    by (auto simp: keeps_def)
  moreover from assms have "nextRef st \<le> nextRef st2"
    by (auto simp: keeps_def)
  moreover from assms have "BROWSER_ENDPOINTS st2 = BROWSER_ENDPOINTS st"
    by (simp add: keeps_def)
  moreover have "browser (heap st2 r) = browser (heap st r) \<and>
                 endpoint (heap st2 r) = endpoint (heap st r)" if "r < nextRef st" for r
  proof -
    from assms(1) that have a: "browser (heap st1 r) = browser (heap st r) \<and>
                 endpoint (heap st1 r) = endpoint (heap st r)" and "r < nextRef st1"
      by (auto simp: keeps_def)
    with assms(2) have "browser (heap st2 r) = browser (heap st1 r) \<and>
                 endpoint (heap st2 r) = endpoint (heap st1 r)"
      by (simp add: keeps_def)
    with a show ?thesis by simp
  qed
  moreover from assms
  have "others ep i (browserInstances st2) = others ep i (browserInstances st)" for i
    by (simp add: keeps_def)
  moreover from assms have "wellFormed st \<longrightarrow> wellFormed st2"
    by (simp add: keeps_def)
  ultimately show ?thesis by (simp add: keeps_def)
qed

lemma sameManager_emit: "sameManager st (emit c st)"
  by (simp add: sameManager_def emit_def)

lemma sameManager_logger: "sameManager st (logger l m st)"
  by (simp add: logger_def sameManager_emit)

lemma sameManager_sleep: "sameManager st (sleep n st)"
  by (simp add: sleep_def sameManager_emit)

lemma sameManager_chromium_connect: "sameManager st (snd (chromium_connect ep st))"
  by (simp add: sameManager_def chromium_connect_def emit_def)

lemma sameManager_createAndSecurePage: "sameManager st (snd (createAndSecurePage b i st))"
  by (simp add: sameManager_def createAndSecurePage_def createBasePage_def browser_newPage_def
      setupCoreSecurityControls_def emit_def split: option.splits)

lemma sameManager_warmPool: "sameManager st (snd (warmPool n b r pool st))"
proof (induction n arbitrary: pool st)
  case 0
  show ?case by (simp add: sameManager_refl)
next
  case (Suc n)
  show ?case
  proof (cases "fst (createAndSecurePage b (Some r) st)")
    case (Inl e)
    then show ?thesis
      using sameManager_createAndSecurePage [of st b "Some r"]
      by (simp add: case_prod_unfold)
  next
    case (Inr p)
    then have "snd (warmPool (Suc n) b r pool st) =
               snd (warmPool n b r (pool @ [p]) (snd (createAndSecurePage b (Some r) st)))"
      by (simp add: case_prod_unfold)
    with Suc.IH [where pool = "pool @ [p]" and st = "snd (createAndSecurePage b (Some r) st)"]
      sameManager_createAndSecurePage [of st b "Some r"]
    show ?thesis by (auto intro: sameManager_trans)
  qed
qed

lemma sameManager_browser_close: "sameManager st (snd (browser_close b st))"
  by (simp add: sameManager_def browser_close_def emit_def)

lemma sameManager_page_close: "sameManager st (snd (page_close p st))"
  by (simp add: sameManager_def page_close_def emit_def)

lemma sameManager_page_goto: "sameManager st (snd (page_goto p u t st))"
  by (simp add: sameManager_def page_goto_def emit_def)

lemma sameManager_closeAll: "sameManager st (closeAll ps st)"
  unfolding closeAll_def
proof (induction ps arbitrary: st)
  case Nil
  show ?case by (simp add: sameManager_refl)
next
  case (Cons p ps)
  from Cons.IH [of "snd (page_close p st)"] sameManager_page_close [of st p]
  show ?case by (auto intro: sameManager_trans)
qed

lemma sameManager_fields:
  "sameManager st st' \<Longrightarrow>
   sameManager st (st'\<lparr>heap := (heap st')(r := (heap st' r)\<lparr>pagePool := pool\<rparr>)\<rparr>)"
  "sameManager st st' \<Longrightarrow>
   sameManager st (st'\<lparr>heap := (heap st')(r := (heap st' r)\<lparr>healthy := h\<rparr>)\<rparr>)"
  "sameManager st st' \<Longrightarrow>
   sameManager st (st'\<lparr>heap := (heap st')(r := (heap st' r)\<lparr>healthy := h, lastHealthCheck := t\<rparr>)\<rparr>)"
  by (simp_all add: sameManager_def)

lemma checkBrowserHealth_try_trace:
  "\<exists>ext. trace (snd (checkBrowserHealth_try r st)) =
          trace st @ IsConnected (browser (heap st r)) # ext"
proof -
  let ?st1 = "snd (browser_isConnected (browser (heap st r)) st)"
  have t1: "trace ?st1 = trace st @ [IsConnected (browser (heap st r))]"
    by (simp add: browser_isConnected_def emit_def)
  have h1: "heap ?st1 = heap st"
    by (simp add: browser_isConnected_def emit_def)
  let ?c = "createAndSecurePage (browser (heap st r)) (Some r) ?st1"
  have s2: "sameManager ?st1 (snd ?c)" by (rule sameManager_createAndSecurePage)
  show ?thesis
  proof (cases "fst (browser_isConnected (browser (heap st r)) st)")
    case False
    then show ?thesis using t1
      by (simp add: checkBrowserHealth_try_def case_prod_unfold)
  next
    case True
    show ?thesis
    proof (cases "fst ?c")
      case (Inl e)
      with True h1 have "snd (checkBrowserHealth_try r st) = snd ?c"
        by (simp add: checkBrowserHealth_try_def case_prod_unfold)
      with s2 t1 show ?thesis by (auto simp: sameManager_def)
    next
      case (Inr tp)
      let ?g = "page_goto tp ''about:blank'' None (snd ?c)"
      let ?cl = "page_close tp (snd ?g)"
      have s3: "sameManager ?st1 (snd ?g)"
        using s2 sameManager_page_goto by (rule sameManager_trans)
      have s4: "sameManager ?st1 (snd ?cl)"
        using s3 sameManager_page_close by (rule sameManager_trans)
      from True Inr h1
      have "\<exists>ext. trace (snd (checkBrowserHealth_try r st)) = trace ?st1 @ ext"
        using s3 s4
        by (auto simp: checkBrowserHealth_try_def case_prod_unfold sameManager_def
            split: sum.splits)
      with t1 show ?thesis by auto
    qed
  qed
qed

lemma sameManager_checkBrowserHealth_try: "sameManager st (snd (checkBrowserHealth_try r st))"
proof -
  from checkBrowserHealth_try_trace [of r st]
  have "\<exists>ext. trace (snd (checkBrowserHealth_try r st)) = trace st @ ext" by auto
  moreover have "nextRef (snd (checkBrowserHealth_try r st)) = nextRef st"
    by (simp add: checkBrowserHealth_try_def case_prod_unfold browser_isConnected_def
        createAndSecurePage_def createBasePage_def browser_newPage_def
        setupCoreSecurityControls_def page_goto_def page_close_def emit_def
        split: sum.splits)
  moreover
  have "BROWSER_ENDPOINTS (snd (checkBrowserHealth_try r st)) = BROWSER_ENDPOINTS st"
    by (simp add: checkBrowserHealth_try_def case_prod_unfold browser_isConnected_def
        createAndSecurePage_def createBasePage_def browser_newPage_def
        setupCoreSecurityControls_def page_goto_def page_close_def emit_def
        split: sum.splits)
  moreover have "browserInstances (snd (checkBrowserHealth_try r st)) = browserInstances st"
    by (rule checkBrowserHealth_try_frame)
  moreover have "browser (heap (snd (checkBrowserHealth_try r st)) r') = browser (heap st r') \<and>
        endpoint (heap (snd (checkBrowserHealth_try r st)) r') = endpoint (heap st r')" for r'
    by (simp add: checkBrowserHealth_try_def case_prod_unfold browser_isConnected_frame
      createAndSecurePage_heap page_goto_heap page_close_heap split: sum.splits)
  ultimately show ?thesis by (simp add: sameManager_def)
qed

lemma map_entries_delete_filter:
  "map_entries (map_delete k m) = filter (\<lambda>e. fst e \<noteq> k) (map_entries m)"
  unfolding map_delete_def
  by (induction m rule: map_entries.induct) auto

lemma drop_map_delete: "drop i (map_delete k m) = map_delete k (drop i m)"
  by (simp add: map_delete_def drop_map)

lemma others_delete: "others k i (map_delete k m) = others k i m"
  by (simp add: others_def drop_map_delete map_entries_delete_filter)

lemma others_update:
  "others k i (map (\<lambda>slot. case slot of None \<Rightarrow> None
                   | Some (k', v') \<Rightarrow> if k' = k then Some (k, v) else Some (k', v')) m)
   = others k i m"
proof -
  have "filter (\<lambda>e. fst e \<noteq> k) (map_entries (map (\<lambda>slot. case slot of None \<Rightarrow> None
                   | Some (k', v') \<Rightarrow> if k' = k then Some (k, v) else Some (k', v')) xs))
        = filter (\<lambda>e. fst e \<noteq> k) (map_entries xs)" for xs
    by (induction xs rule: map_entries.induct) auto
  then show ?thesis by (simp add: others_def drop_map)
qed

lemma others_set: "others k i (map_set k v m) = others k i m"
proof (cases "map_get k m = None")
  case True
  have "filter (\<lambda>e. fst e \<noteq> k) (map_entries (drop n [Some (k, v)])) = []" for n
    by (cases n) simp_all
  with True show ?thesis
    by (simp add: others_def map_set_def map_entries_append)
next
  case False
  then show ?thesis by (auto simp: map_set_def others_update)
qed

lemma distinct_keys_delete:
  "distinct (map fst (map_entries m)) \<Longrightarrow> distinct (map fst (map_entries (map_delete k m)))"
  by (simp add: map_entries_delete)

lemma distinct_keys_set:
  assumes "distinct (map fst (map_entries m))"
  shows "distinct (map fst (map_entries (map_set k v m)))"
proof (cases "map_get k m = None")
  case True
  then have "k \<notin> fst ` set (map_entries m)"
    by (simp add: map_get_None_iff map_keys_def)
  with True assms show ?thesis
    by (simp add: map_set_def map_entries_append)
next
  case False
  with assms show ?thesis by (auto simp: map_set_def map_entries_update)
qed

lemma keeps_delete: "keeps ep st (st\<lparr>browserInstances := map_delete ep (browserInstances st)\<rparr>)"
  using map_entries_delete_subset [of ep "browserInstances st"]
  by (auto simp: keeps_def others_delete wellFormed_def distinct_keys_delete)

lemma keeps_register:
  assumes "endpoint inst = ep"
  shows "keeps ep st (st\<lparr>heap := (heap st)(nextRef st := inst), nextRef := Suc (nextRef st),
                         browserInstances := map_set ep (nextRef st) (browserInstances st)\<rparr>)"
    (is "keeps ep st ?st'")
proof -
  have "wellFormed ?st'" if wf: "wellFormed st"
  proof -
    from wf have "distinct (map fst (map_entries (browserInstances ?st')))"
      by (simp add: wellFormed_def distinct_keys_set)
    moreover have "endpoint (heap ?st' (snd e)) = fst e \<and> snd e < nextRef ?st'"
      if "e \<in> set (map_entries (browserInstances ?st'))" for e
    proof -
      from that map_entries_set_subset [of ep "nextRef st" "browserInstances st"]
      have "e = (ep, nextRef st) \<or> e \<in> set (map_entries (browserInstances st))"
        by auto
      then show ?thesis
      proof
        assume "e = (ep, nextRef st)"
        with assms show ?thesis by simp
      next
        assume "e \<in> set (map_entries (browserInstances st))"
        with wf have "endpoint (heap st (snd e)) = fst e" "snd e < nextRef st"
          by (simp_all add: wellFormed_def)
        then show ?thesis by simp
      qed
    qed
    ultimately show ?thesis by (simp add: wellFormed_def)
  qed
  then show ?thesis
    by (simp add: keeps_def others_set)
qed

lemma connectToBrowser_try_keeps: "keeps ep st (snd (connectToBrowser_try ep st))"
proof (cases "fst (chromium_connect ep st)")
  case (Inl e)
  then have "snd (connectToBrowser_try ep st) = snd (chromium_connect ep st)"
    by (simp add: connectToBrowser_try_def case_prod_unfold)
  then show ?thesis
    by (simp add: sameManager_keeps sameManager_chromium_connect)
next
  case (Inr b)
  let ?st1 = "snd (chromium_connect ep st)"
  let ?r = "nextRef ?st1"
  let ?inst = "\<lparr>browser = b, pagePool = [], endpoint = ep, healthy = True,
                 lastHealthCheck = length (trace ?st1), markedForShutdown = None\<rparr>"
  let ?st2 = "?st1\<lparr>heap := (heap ?st1)(?r := ?inst), nextRef := Suc ?r,
                    browserInstances := map_set ep ?r (browserInstances ?st1)\<rparr>"
  let ?w = "warmPool PAGE_POOL_SIZE b ?r [] ?st2"
  have k1: "keeps ep st ?st1"
    by (simp add: sameManager_keeps sameManager_chromium_connect)
  have k2: "keeps ep ?st1 ?st2"
    by (rule keeps_register) simp
  have s3: "sameManager ?st2 (snd ?w)"
    by (rule sameManager_warmPool)
  have k3: "keeps ep st (snd ?w)"
    using k1 k2 s3 by (blast intro: keeps_trans sameManager_keeps)
  show ?thesis
  proof (cases "fst ?w")
    case (Inl e)
    with Inr have "snd (connectToBrowser_try ep st) = snd ?w"
      by (simp add: connectToBrowser_try_def case_prod_unfold Let_def)
    with k3 show ?thesis by simp
  next
    case (Inr pool)
    let ?st4 = "(snd ?w)\<lparr>heap := (heap (snd ?w))(?r := (heap (snd ?w) ?r)\<lparr>pagePool := pool\<rparr>)\<rparr>"
    from Inr \<open>fst (chromium_connect ep st) = Inr b\<close>
    have e: "snd (connectToBrowser_try ep st) =
          logger Info (ConnectedWithPages ep (length pool)) ?st4"
      by (simp add: connectToBrowser_try_def case_prod_unfold Let_def)
    have "sameManager (snd ?w) ?st4"
      by (rule sameManager_fields) (rule sameManager_refl)
    then have "sameManager (snd ?w) (logger Info (ConnectedWithPages ep (length pool)) ?st4)"
      using sameManager_logger by (rule sameManager_trans)
    with k3 show ?thesis
      unfolding e by (blast intro: keeps_trans sameManager_keeps)
  qed
qed

lemma connectToBrowser_keeps: "keeps ep st (snd (connectToBrowser ep st))"
proof (cases "fst (connectToBrowser_try ep st)")
  case (Inr u)
  then have "snd (connectToBrowser ep st) = snd (connectToBrowser_try ep st)"
    by (simp add: connectToBrowser_def case_prod_unfold)
  then show ?thesis by (simp add: connectToBrowser_try_keeps)
next
  case (Inl e)
  let ?st1 = "snd (connectToBrowser_try ep st)"
  have k1: "keeps ep st ?st1" by (rule connectToBrowser_try_keeps)
  show ?thesis
  proof (cases "map_get ep (browserInstances ?st1)")
    case None
    with Inl have e: "snd (connectToBrowser ep st) = logger Error (FailedToConnect ep) ?st1"
      by (simp add: connectToBrowser_def case_prod_unfold Let_def)
    have "keeps ep ?st1 (logger Error (FailedToConnect ep) ?st1)"
      by (simp add: sameManager_keeps sameManager_logger)
    with k1 show ?thesis
      unfolding e by (rule keeps_trans)
  next
    case (Some r)
    let ?st' = "snd (browser_close (browser (heap ?st1 r)) ?st1)"
    let ?st2 = "?st'\<lparr>browserInstances := map_delete ep (browserInstances ?st')\<rparr>"
    from Inl Some have e: "snd (connectToBrowser ep st) = logger Error (FailedToConnect ep) ?st2"
      by (simp add: connectToBrowser_def case_prod_unfold Let_def)
    have "keeps ep ?st1 ?st'"
      by (simp add: sameManager_keeps sameManager_browser_close)
    moreover have "keeps ep ?st' ?st2" by (rule keeps_delete)
    moreover have "keeps ep ?st2 (logger Error (FailedToConnect ep) ?st2)"
      by (simp add: sameManager_keeps sameManager_logger)
    ultimately show ?thesis
      unfolding e using k1 by (blast intro: keeps_trans)
  qed
qed

lemma reconnect_try_keeps: "keeps (endpoint (heap st r)) st (snd (reconnect_try a r st))"
proof -
  let ?ep = "endpoint (heap st r)"
  let ?st1 = "logger Info (AttemptingReconnect ?ep a) st"
  let ?st2 = "?st1\<lparr>browserInstances := map_delete ?ep (browserInstances ?st1)\<rparr>"
  let ?st3 = "closeAll (pagePool (heap ?st2 r)) ?st2"
  let ?st4 = "snd (browser_close (browser (heap ?st3 r)) ?st3)"
  have ep4: "endpoint (heap ?st4 r) = ?ep"
    by (simp add: browser_close_heap closeAll_heap logger_heap)
  let ?c = "connectToBrowser (endpoint (heap ?st4 r)) ?st4"
  have "keeps ?ep st ?st1"
    by (simp add: sameManager_keeps sameManager_logger)
  moreover have "keeps ?ep ?st1 ?st2" by (rule keeps_delete)
  moreover have "keeps ?ep ?st2 ?st3"
    by (simp add: sameManager_keeps sameManager_closeAll)
  moreover have "keeps ?ep ?st3 ?st4"
    by (simp add: sameManager_keeps sameManager_browser_close)
  moreover have "keeps ?ep ?st4 (snd ?c)"
    using connectToBrowser_keeps [of "endpoint (heap ?st4 r)" ?st4] unfolding ep4 .
  ultimately have k5: "keeps ?ep st (snd ?c)"
    by (blast intro: keeps_trans)
  have "keeps ?ep (snd ?c) (logger Info (SuccessfullyReconnected (endpoint (heap (snd ?c) r))) (snd ?c))"
    by (simp add: sameManager_keeps sameManager_logger)
  with k5
  have "keeps ?ep st (logger Info (SuccessfullyReconnected (endpoint (heap (snd ?c) r))) (snd ?c))"
    by (rule keeps_trans)
  with k5 show ?thesis
    by (simp add: reconnect_try_def Let_def case_prod_unfold split: sum.splits)
qed

lemma reconnectLoop_keeps:
  "r < nextRef st \<Longrightarrow> reconnectLoop fuel vars r st = Some (vars', st') \<Longrightarrow>
   keeps (endpoint (heap st r)) st st'"
proof (induction fuel arbitrary: vars st)
  case 0
  then show ?case by simp
next
  case (Suc fuel)
  obtain d a where vars: "vars = (d, a)" by (cases vars)
  obtain res st1 where t: "reconnect_try a r st = (res, st1)"
    by (cases "reconnect_try a r st")
  let ?ep = "endpoint (heap st r)"
  have k1: "keeps ?ep st st1"
    using reconnect_try_keeps [of st r a] t by simp
  show ?case
  proof (cases res)
    case (Inr u)
    with Suc.prems t vars k1 show ?thesis by simp
  next
    case (Inl e)
    let ?st3 = "sleep (backoffDelay a)
                 (logger Error (ReconnectAttemptFailed a (endpoint (heap st1 r)) (backoffDelay a)) st1)"
    have "sameManager st1 ?st3"
      using sameManager_logger sameManager_sleep by (rule sameManager_trans)
    then have "keeps ?ep st1 ?st3" by (rule sameManager_keeps)
    with k1 have k3: "keeps ?ep st ?st3" by (rule keeps_trans)
    with Suc.prems(1) have r3: "r < nextRef ?st3" and ep3: "endpoint (heap ?st3 r) = ?ep"
      by (auto simp: keeps_def)
    from Suc.prems t vars Inl
    have "reconnectLoop fuel (backoffDelay a, a + 1) r ?st3 = Some (vars', st')"
      by (simp add: Let_def)
    from Suc.IH [OF r3 this] have "keeps ?ep ?st3 st'" by (simp add: ep3)
    with k3 show ?thesis by (rule keeps_trans)
  qed
qed

lemma checkBrowserHealth_keeps:
  assumes "r < nextRef st" "checkBrowserHealth fuel r st = Some (res, st')"
  shows "keeps (endpoint (heap st r)) st st'"
    and "\<exists>ext. trace st' = trace st @ IsConnected (browser (heap st r)) # ext"
proof -
  let ?ep = "endpoint (heap st r)"
  let ?st1 = "snd (checkBrowserHealth_try r st)"
  have s1: "sameManager st ?st1" by (rule sameManager_checkBrowserHealth_try)
  from checkBrowserHealth_try_trace [of r st]
  obtain ext1 where t1: "trace ?st1 = trace st @ IsConnected (browser (heap st r)) # ext1" ..
  have both: "keeps ?ep st st' \<and>
              (\<exists>ext. trace st' = trace st @ IsConnected (browser (heap st r)) # ext)"
  proof (cases "fst (checkBrowserHealth_try r st)")
    case (Inr u)
    with assms have "st' = ?st1"
      by (simp add: checkBrowserHealth_def case_prod_unfold)
    with s1 t1 show ?thesis by (simp add: sameManager_keeps)
  next
    case (Inl e)
    let ?st2 = "?st1\<lparr>heap := (heap ?st1)(r := (heap ?st1 r)\<lparr>healthy := False\<rparr>)\<rparr>"
    let ?st3 = "logger Error (InstanceUnhealthy (endpoint (heap ?st2 r))) ?st2"
    have "sameManager st ?st2"
      using s1 by (rule sameManager_fields)
    then have s3: "sameManager st ?st3"
      using sameManager_logger by (rule sameManager_trans)
    have t3: "trace ?st3 = trace st @ IsConnected (browser (heap st r)) # ext1 @
                [Log Error (InstanceUnhealthy (endpoint (heap ?st2 r)))]"
      by (simp add: logger_trace t1)
    from s3 assms(1) have r3: "r < nextRef ?st3" and ep3: "endpoint (heap ?st3 r) = ?ep"
      by (simp_all add: sameManager_def)
    from assms Inl have "attemptRecovery fuel (Some r) ?st3 = Some (res, st')"
      by (simp add: checkBrowserHealth_def case_prod_unfold Let_def)
    then obtain vars' where "reconnectLoop fuel (INITIAL_RECONNECT_DELAY, 1) r ?st3 = Some (vars', st')"
      by (auto simp: attemptRecovery_def split: option.splits)
    from reconnectLoop_keeps [OF r3 this] have k: "keeps ?ep ?st3 st'"
      unfolding ep3 .
    then obtain ext where "trace st' = trace ?st3 @ ext"
      by (auto simp: keeps_def)
    with t3 have "\<exists>ext. trace st' = trace st @ IsConnected (browser (heap st r)) # ext"
      by simp
    moreover from s3 k have "keeps ?ep st st'"
      by (blast intro: keeps_trans sameManager_keeps)
    ultimately show ?thesis by simp
  qed
  from both show "keeps (endpoint (heap st r)) st st'" by simp
  from both show "\<exists>ext. trace st' = trace st @ IsConnected (browser (heap st r)) # ext" by simp
qed

lemma first_entry_Some:
  "first_entry j xs = Some (e, j') \<Longrightarrow>
   j < j' \<and> map_entries xs = e # map_entries (drop (j' - j) xs)"
proof (induction j xs rule: first_entry.induct)
  case (1 i)
  then show ?case by simp
next
  case (2 i m)
  then have "Suc i < j'" and "map_entries m = e # map_entries (drop (j' - Suc i) m)"
    by simp_all
  moreover from \<open>Suc i < j'\<close> have "j' - i = Suc (j' - Suc i)" by simp
  ultimately show ?case by simp
next
  case (3 i e' m)
  then show ?case by auto
qed

lemma first_entry_None: "first_entry j xs = None \<Longrightarrow> map_entries xs = []"
  by (induction j xs rule: first_entry.induct) simp_all

lemma map_next_Some:
  assumes "map_next i m = Some (e, i')"
  shows "map_entries (drop i m) = e # map_entries (drop i' m)"
proof -
  from assms have "first_entry i (drop i m) = Some (e, i')"
    by (simp add: map_next_def)
  from first_entry_Some [OF this]
  have "i < i'" and "map_entries (drop i m) = e # map_entries (drop (i' - i) (drop i m))"
    by simp_all
  then show ?thesis by simp
qed

lemma map_next_None: "map_next i m = None \<Longrightarrow> map_entries (drop i m) = []"
  by (simp add: map_next_def first_entry_None)

lemma map_entries_take_drop: "map_entries m = map_entries (take i m) @ map_entries (drop i m)"
  using map_entries_append [of "take i m" "drop i m"] by simp

lemma healthCheckLoop_probes:
  "wellFormed st \<Longrightarrow> healthCheckLoop fuel i st = Some (res, st') \<Longrightarrow>
   (\<exists>ext. trace st' = trace st @ ext) \<and>
   (\<forall>c \<in> set (map_entries (drop i (browserInstances st))).
      IsConnected (browser (heap st (snd c))) \<in> set (drop (length (trace st)) (trace st')))"
proof (induction fuel arbitrary: i st)
  case 0
  then show ?case by simp
next
  case (Suc fuel)
  let ?m = "browserInstances st"
  show ?case
  proof (cases "map_next i ?m")
    case None
    with Suc.prems map_next_None [of i ?m] show ?thesis by simp
  next
    case (Some x)
    obtain ep r i' where x: "x = ((ep, r), i')" by (cases x) auto
    from Some x have nxt: "map_next i ?m = Some ((ep, r), i')" by simp
    note ent = map_next_Some [OF nxt]
    from map_entries_take_drop [of ?m i] ent
    have whole: "map_entries ?m = map_entries (take i ?m) @ (ep, r) # map_entries (drop i' ?m)"
      by simp
    from Suc.prems(1) whole have own: "endpoint (heap st r) = ep" and ref: "r < nextRef st"
      by (auto simp: wellFormed_def)
    from Suc.prems(1) have "distinct (map fst (map_entries ?m))"
      by (simp add: wellFormed_def)
    then have nin: "ep \<notin> fst ` set (map_entries (drop i' ?m))"
      by (subst (asm) whole) simp
    have other: "fst c \<noteq> ep \<and> snd c < nextRef st"
      if c: "c \<in> set (map_entries (drop i' ?m))" for c
    proof -
      from nin c have "fst c \<noteq> ep" by force
      moreover from c whole have "c \<in> set (map_entries ?m)" by simp
      with Suc.prems(1) have "snd c < nextRef st" by (simp add: wellFormed_def)
      ultimately show ?thesis by simp
    qed
    from Suc.prems(2) nxt obtain y where chk: "checkBrowserHealth fuel r st = Some y"
      by (cases "checkBrowserHealth fuel r st") simp_all
    obtain res1 st1 where y: "y = (res1, st1)" by (cases y)
    from chk y checkBrowserHealth_never_throws [of fuel r st _ st1]
    have "res1 = Inr ()" by (cases res1) auto
    with Suc.prems(2) nxt chk y
    have rest: "healthCheckLoop fuel i' st1 = Some (res, st')" by simp
    from checkBrowserHealth_keeps [OF ref] chk y own
    have k: "keeps ep st st1"
      and "\<exists>ext. trace st1 = trace st @ IsConnected (browser (heap st r)) # ext"
      by auto
    then obtain ext1 where t1: "trace st1 = trace st @ IsConnected (browser (heap st r)) # ext1"
      by auto
    from k Suc.prems(1) have wf1: "wellFormed st1" by (simp add: keeps_def)
    from Suc.IH [OF wf1 rest] obtain ext2
      where t2: "trace st' = trace st1 @ ext2"
        and ih: "\<forall>c \<in> set (map_entries (drop i' (browserInstances st1))).
                   IsConnected (browser (heap st1 (snd c))) \<in> set (drop (length (trace st1)) (trace st'))"
      by auto
    have t: "trace st' = trace st @ IsConnected (browser (heap st r)) # ext1 @ ext2"
      by (simp add: t1 t2)
    have "IsConnected (browser (heap st (snd c))) \<in> set (drop (length (trace st)) (trace st'))"
      if c: "c \<in> set (map_entries (drop i ?m))" for c
    proof (cases "c = (ep, r)")
      case True
      then show ?thesis by (simp add: t)
    next
      case False
      with c ent have c': "c \<in> set (map_entries (drop i' ?m))" by simp
      from other [OF c'] have ne: "fst c \<noteq> ep" and cr: "snd c < nextRef st" by simp_all
      from c' ne have "c \<in> set (others ep i' ?m)" by (simp add: others_def)
      with k have "c \<in> set (others ep i' (browserInstances st1))" by (simp add: keeps_def)
      then have "c \<in> set (map_entries (drop i' (browserInstances st1)))"
        by (simp add: others_def)
      with ih have "IsConnected (browser (heap st1 (snd c))) \<in> set (drop (length (trace st1)) (trace st'))"
        by simp
      moreover from k cr have "browser (heap st1 (snd c)) = browser (heap st (snd c))"
        by (simp add: keeps_def)
      ultimately have "IsConnected (browser (heap st (snd c))) \<in> set ext2"
        by (simp add: t2)
      then show ?thesis by (simp add: t)
    qed
    with t show ?thesis by simp
  qed
qed

lemma healthCheckLoop_goes_on:
  assumes "map_next i (browserInstances st) = Some ((ep, r), i')"
    and "checkBrowserHealth fuel r st = Some (res, st1)"
  shows "healthCheckLoop (Suc fuel) i st = healthCheckLoop fuel i' st1"
proof -
  from assms(2) checkBrowserHealth_never_throws [of fuel r st _ st1]
  have "res = Inr ()" by (cases res) auto
  with assms show ?thesis by simp
qed

lemma wellFormed_fresh: "wellFormed (freshManager f env)"
  by (simp add: wellFormed_def freshManager_def)

lemma sameManager_wellFormed: "sameManager st st' \<Longrightarrow> wellFormed st \<Longrightarrow> wellFormed st'"
  using sameManager_keeps [of st st'] by (simp add: keeps_def)

lemma connectEach_wellFormed: "wellFormed st \<Longrightarrow> wellFormed (connectEach eps st)"
proof (induction eps arbitrary: st)
  case Nil
  then show ?case by simp
next
  case (Cons ep eps)
  let ?st1 = "snd (connectToBrowser ep st)"
  from connectToBrowser_keeps [of ep st] Cons.prems have wf1: "wellFormed ?st1"
    by (simp add: keeps_def)
  then have "wellFormed (logger Error (FailedToConnect ep) ?st1)"
    using sameManager_logger by (rule sameManager_wellFormed [rotated])
  with wf1 Cons.IH show ?case
    by (simp add: case_prod_unfold split: sum.splits)
qed

lemma initializeConnections_wellFormed:
  "wellFormed st \<Longrightarrow> wellFormed (snd (initializeConnections st))"
  by (simp add: initializeConnections_def Let_def connectEach_wellFormed)

lemma sameManager_validatePage: "sameManager st (snd (validatePage p st))"
  by (simp add: sameManager_def validatePage_def page_evaluate_def emit_def)

lemma sameManager_takePooledPage: "sameManager st (snd (takePooledPage r st))"
proof (cases "pagePool (heap st r)")
  case Nil
  then show ?thesis
    by (simp add: takePooledPage_def pagePool_shift_def sameManager_refl)
next
  case (Cons p ps)
  let ?st1 = "st\<lparr>heap := (heap st)(r := (heap st r)\<lparr>pagePool := ps\<rparr>)\<rparr>"
  have s1: "sameManager st ?st1"
    by (rule sameManager_fields) (rule sameManager_refl)
  have s2: "sameManager st (snd (validatePage p ?st1))"
    using s1 sameManager_validatePage by (rule sameManager_trans)
  have s3: "sameManager st (snd (page_close p (snd (validatePage p ?st1))))"
    using s2 sameManager_page_close by (rule sameManager_trans)
  from Cons s2 s3 show ?thesis
    by (simp add: takePooledPage_def pagePool_shift_def case_prod_unfold)
qed

lemma sameManager_tryInstance: "sameManager st (snd (tryInstance r st))"
proof -
  let ?st1 = "snd (takePooledPage r st)"
  let ?c = "createAndSecurePage (browser (heap ?st1 r)) (Some r) ?st1"
  let ?st3 = "logger Error (FailedToCreateFromInstance (endpoint (heap (snd ?c) r))) (snd ?c)"
  have s1: "sameManager st ?st1" by (rule sameManager_takePooledPage)
  have s2: "sameManager st (snd ?c)"
    using s1 sameManager_createAndSecurePage by (rule sameManager_trans)
  have "sameManager st ?st3"
    using s2 sameManager_logger by (rule sameManager_trans)
  then have "sameManager st (?st3\<lparr>heap := (heap ?st3)(r := (heap ?st3 r)\<lparr>healthy := False\<rparr>)\<rparr>)"
    by (rule sameManager_fields)
  with s1 s2 show ?thesis
    by (simp add: tryInstance_def case_prod_unfold Let_def split: option.splits sum.splits)
qed

lemma sameManager_tryInstances: "sameManager st (snd (tryInstances rs st))"
proof (induction rs arbitrary: st)
  case Nil
  show ?case by (simp add: sameManager_logger)
next
  case (Cons r rs)
  from Cons.IH [of "snd (tryInstance r st)"] sameManager_tryInstance [of st r]
  have "sameManager st (snd (tryInstances rs (snd (tryInstance r st))))"
    by (auto intro: sameManager_trans)
  with sameManager_tryInstance [of st r] show ?case
    by (simp add: case_prod_unfold split: option.splits)
qed

lemma getAvailablePage_wellFormed:
  assumes "wellFormed st"
  shows "wellFormed (snd (getAvailablePage st))"
proof (cases "healthyInstances st = []")
  case True
  from assms have "wellFormed (logger Warn NoHealthyInstances st)"
    using sameManager_logger by (rule sameManager_wellFormed [rotated])
  from initializeConnections_wellFormed [OF this] True show ?thesis
    by (simp add: getAvailablePage_def attemptRecovery_all_def case_prod_unfold
        split: sum.splits)
next
  case False
  then have "snd (getAvailablePage st) = snd (tryInstances (healthyInstances st) st)"
    by (simp add: getAvailablePage_def case_prod_unfold Let_def)
  with assms sameManager_tryInstances [of st "healthyInstances st"] show ?thesis
    by (simp add: sameManager_wellFormed)
qed

lemma sameManager_resetPage: "sameManager st (snd (resetPage p st))"
proof (cases "findInstanceByPage p st")
  case None
  then show ?thesis by (simp add: resetPage_def sameManager_refl)
next
  case (Some r)
  let ?st1 = "snd (page_goto p ''about:blank'' (Some 500) st)"
  let ?st2 = "snd (page_close p ?st1)"
  let ?c = "createAndSecurePage (browser (heap ?st2 r)) (Some r) ?st2"
  have s1: "sameManager st ?st1" by (rule sameManager_page_goto)
  have s2: "sameManager st ?st2"
    using s1 sameManager_page_close by (rule sameManager_trans)
  have s3: "sameManager st (snd ?c)"
    using s2 sameManager_createAndSecurePage by (rule sameManager_trans)
  have s4: "sameManager st (logger Error FailedToCreateAfterReset (snd ?c))"
    using s3 sameManager_logger by (rule sameManager_trans)
  from Some s1 s3 s4 show ?thesis
    by (simp add: resetPage_def case_prod_unfold Let_def split: sum.splits)
qed

lemma sameManager_returnPage: "sameManager st (snd (returnPage p st))"
proof (cases "findInstanceByPage p st")
  case None
  have s1: "sameManager st (snd (page_close p st))" by (rule sameManager_page_close)
  then have "sameManager st (logger Error ErrorClosingOrphanedPage (snd (page_close p st)))"
    using sameManager_logger by (rule sameManager_trans)
  with None s1 show ?thesis
    by (simp add: returnPage_def case_prod_unfold split: sum.splits)
next
  case (Some r)
  let ?t = "returnPage_try r p st"
  have t: "sameManager st (snd ?t)"
  proof -
    let ?st1 = "snd (resetPage p st)"
    have s1: "sameManager st ?st1" by (rule sameManager_resetPage)
    then have "sameManager st (?st1\<lparr>heap := (heap ?st1)(r := (heap ?st1 r)\<lparr>
                  pagePool := pagePool (heap ?st1 r) @ [q]\<rparr>)\<rparr>)" for q
      by (rule sameManager_fields)
    with s1 sameManager_page_close [of st p] show ?thesis
      by (simp add: returnPage_try_def case_prod_unfold split: sum.splits)
  qed
  have "sameManager st (logger Error ErrorReturningPage (snd ?t))"
    using t sameManager_logger by (rule sameManager_trans)
  then have "sameManager st (snd (page_close p (logger Error ErrorReturningPage (snd ?t))))"
    using sameManager_page_close by (rule sameManager_trans)
  with Some t show ?thesis
    by (simp add: returnPage_def case_prod_unfold split: sum.splits)
qed

lemma healthCheckLoop_wellFormed:
  "wellFormed st \<Longrightarrow> healthCheckLoop fuel i st = Some (res, st') \<Longrightarrow> wellFormed st'"
proof (induction fuel arbitrary: i st)
  case 0
  then show ?case by simp
next
  case (Suc fuel)
  let ?m = "browserInstances st"
  show ?case
  proof (cases "map_next i ?m")
    case None
    with Suc.prems show ?thesis by simp
  next
    case (Some x)
    obtain ep r i' where x: "x = ((ep, r), i')" by (cases x) auto
    from Some x have nxt: "map_next i ?m = Some ((ep, r), i')" by simp
    from map_entries_take_drop [of ?m i] map_next_Some [OF nxt]
    have "(ep, r) \<in> set (map_entries ?m)" by simp
    with Suc.prems(1) have own: "endpoint (heap st r) = ep" and ref: "r < nextRef st"
      by (auto simp: wellFormed_def)
    from Suc.prems(2) nxt obtain y where chk: "checkBrowserHealth fuel r st = Some y"
      by (cases "checkBrowserHealth fuel r st") simp_all
    obtain res1 st1 where y: "y = (res1, st1)" by (cases y)
    from chk y checkBrowserHealth_never_throws [of fuel r st _ st1]
    have "res1 = Inr ()" by (cases res1) auto
    with Suc.prems(2) nxt chk y
    have rest: "healthCheckLoop fuel i' st1 = Some (res, st')" by simp
    from checkBrowserHealth_keeps(1) [OF ref] chk y Suc.prems(1) have "wellFormed st1"
      by (auto simp: keeps_def)
    from Suc.IH [OF this rest] show ?thesis .
  qed
qed

lemma wellFormed_preserved:
  assumes "wellFormed st"
  shows "wellFormed (snd (connectToBrowser ep st))"
    and "wellFormed (snd (initializeConnections st))"
    and "wellFormed (snd (getAvailablePage st))"
    and "wellFormed (snd (returnPage p st))"
    and "healthCheckTick fuel st = Some (res, st') \<Longrightarrow> wellFormed st'"
    and "wellFormed (cleanup st)"
proof -
  from connectToBrowser_keeps [of ep st] assms
  show "wellFormed (snd (connectToBrowser ep st))" by (simp add: keeps_def)
  from assms show "wellFormed (snd (initializeConnections st))"
    by (rule initializeConnections_wellFormed)
  from assms show "wellFormed (snd (getAvailablePage st))"
    by (rule getAvailablePage_wellFormed)
  from sameManager_returnPage assms show "wellFormed (snd (returnPage p st))"
    by (rule sameManager_wellFormed)
  show "wellFormed st'" if "healthCheckTick fuel st = Some (res, st')"
    using healthCheckLoop_wellFormed [OF assms] that by (simp add: healthCheckTick_def)
  show "wellFormed (cleanup st)"
    by (simp add: wellFormed_def cleanup_def Let_def map_entries_clear)
qed

lemma configuredOnly_fresh: "configuredOnly (freshManager f env)"
  by (simp add: configuredOnly_def freshManager_def map_keys_def)

lemma keeps_keys:
  assumes "keeps ep st st'"
  shows "map_keys (browserInstances st') \<subseteq> insert ep (map_keys (browserInstances st))"
proof
  fix k
  assume "k \<in> map_keys (browserInstances st')"
  then obtain v where kv: "(k, v) \<in> set (map_entries (browserInstances st'))"
    by (auto simp: map_keys_def)
  show "k \<in> insert ep (map_keys (browserInstances st))"
  proof (cases "k = ep")
    case True
    then show ?thesis by simp
  next
    case False
    with kv have "(k, v) \<in> set (others ep 0 (browserInstances st'))"
      by (simp add: others_def)
    with assms have "(k, v) \<in> set (others ep 0 (browserInstances st))"
      by (simp add: keeps_def)
    then have "(k, v) \<in> set (map_entries (browserInstances st))"
      by (simp add: others_def)
    then show ?thesis by (force simp: map_keys_def)
  qed
qed

lemma keeps_getEndpoints: "keeps ep st st' \<Longrightarrow> getEndpoints st' = getEndpoints st"
  by (simp add: keeps_def getEndpoints_def)

lemma keeps_configuredOnly:
  "keeps ep st st' \<Longrightarrow> ep \<in> set (getEndpoints st) \<Longrightarrow> configuredOnly st \<Longrightarrow>
   configuredOnly st'"
  using keeps_keys [of ep st st'] keeps_getEndpoints [of ep st st']
  by (auto simp: configuredOnly_def)

lemma sameManager_configuredOnly:
  "sameManager st st' \<Longrightarrow> configuredOnly st \<Longrightarrow> configuredOnly st'"
  by (simp add: sameManager_def configuredOnly_def getEndpoints_def)

lemma connectEach_configuredOnly:
  "set eps \<subseteq> set (getEndpoints st) \<Longrightarrow> configuredOnly st \<Longrightarrow>
   configuredOnly (connectEach eps st) \<and> getEndpoints (connectEach eps st) = getEndpoints st"
proof (induction eps arbitrary: st)
  case Nil
  then show ?case by simp
next
  case (Cons ep eps)
  let ?st1 = "snd (connectToBrowser ep st)"
  let ?st2 = "logger Error (FailedToConnect ep) ?st1"
  note k = connectToBrowser_keeps [of ep st]
  from Cons.prems have ep: "ep \<in> set (getEndpoints st)" by simp
  from keeps_configuredOnly [OF k ep Cons.prems(2)] have c1: "configuredOnly ?st1" .
  from keeps_getEndpoints [OF k] have g1: "getEndpoints ?st1 = getEndpoints st" .
  have s2: "sameManager ?st1 ?st2" by (rule sameManager_logger)
  from sameManager_configuredOnly [OF s2 c1] have c2: "configuredOnly ?st2" .
  from s2 g1 have g2: "getEndpoints ?st2 = getEndpoints st"
    by (simp add: sameManager_def getEndpoints_def)
  from Cons.prems(1) g1 g2
  have sub: "set eps \<subseteq> set (getEndpoints ?st1)" "set eps \<subseteq> set (getEndpoints ?st2)"
    by simp_all
  from Cons.IH [OF sub(1) c1] Cons.IH [OF sub(2) c2] g1 g2 show ?case
    by (simp add: case_prod_unfold split: sum.splits)
qed

lemma initializeConnections_configuredOnly:
  "configuredOnly st \<Longrightarrow> configuredOnly (snd (initializeConnections st))"
  using connectEach_configuredOnly [of "getEndpoints st" st]
  by (simp add: initializeConnections_def Let_def)

lemma getAvailablePage_configuredOnly:
  assumes "configuredOnly st"
  shows "configuredOnly (snd (getAvailablePage st))"
proof (cases "healthyInstances st = []")
  case True
  from assms have "configuredOnly (logger Warn NoHealthyInstances st)"
    using sameManager_logger by (rule sameManager_configuredOnly [rotated])
  from initializeConnections_configuredOnly [OF this] True show ?thesis
    by (simp add: getAvailablePage_def attemptRecovery_all_def case_prod_unfold
        split: sum.splits)
next
  case False
  then have "snd (getAvailablePage st) = snd (tryInstances (healthyInstances st) st)"
    by (simp add: getAvailablePage_def case_prod_unfold Let_def)
  with assms sameManager_tryInstances [of st "healthyInstances st"] show ?thesis
    by (simp add: sameManager_configuredOnly)
qed

lemma healthCheckLoop_configuredOnly:
  "wellFormed st \<Longrightarrow> configuredOnly st \<Longrightarrow> healthCheckLoop fuel i st = Some (res, st') \<Longrightarrow>
   configuredOnly st'"
proof (induction fuel arbitrary: i st)
  case 0
  then show ?case by simp
next
  case (Suc fuel)
  let ?m = "browserInstances st"
  show ?case
  proof (cases "map_next i ?m")
    case None
    with Suc.prems show ?thesis by simp
  next
    case (Some x)
    obtain ep r i' where x: "x = ((ep, r), i')" by (cases x) auto
    from Some x have nxt: "map_next i ?m = Some ((ep, r), i')" by simp
    from map_entries_take_drop [of ?m i] map_next_Some [OF nxt]
    have mem: "(ep, r) \<in> set (map_entries ?m)" by simp
    with Suc.prems(1) have own: "endpoint (heap st r) = ep" and ref: "r < nextRef st"
      by (auto simp: wellFormed_def)
    from mem have "ep \<in> map_keys ?m" by (force simp: map_keys_def)
    with Suc.prems(2) have conf: "ep \<in> set (getEndpoints st)"
      by (auto simp: configuredOnly_def)
    from Suc.prems(3) nxt obtain y where chk: "checkBrowserHealth fuel r st = Some y"
      by (cases "checkBrowserHealth fuel r st") simp_all
    obtain res1 st1 where y: "y = (res1, st1)" by (cases y)
    from chk y checkBrowserHealth_never_throws [of fuel r st _ st1]
    have "res1 = Inr ()" by (cases res1) auto
    with Suc.prems(3) nxt chk y
    have rest: "healthCheckLoop fuel i' st1 = Some (res, st')" by simp
    from checkBrowserHealth_keeps(1) [OF ref] chk y own have k: "keeps ep st st1"
      by auto
    with Suc.prems(1) have wf1: "wellFormed st1" by (simp add: keeps_def)
    from keeps_configuredOnly [OF k conf Suc.prems(2)] have c1: "configuredOnly st1" .
    from Suc.IH [OF wf1 c1 rest] show ?thesis .
  qed
qed

lemma configuredOnly_preserved:
  assumes "configuredOnly st"
  shows "configuredOnly (snd (initializeConnections st))"
    and "configuredOnly (snd (getAvailablePage st))"
    and "configuredOnly (snd (returnPage p st))"
    and "wellFormed st \<Longrightarrow> healthCheckTick fuel st = Some (res, st') \<Longrightarrow> configuredOnly st'"
    and "configuredOnly (cleanup st)"
proof -
  from assms show "configuredOnly (snd (initializeConnections st))"
    by (rule initializeConnections_configuredOnly)
  from assms show "configuredOnly (snd (getAvailablePage st))"
    by (rule getAvailablePage_configuredOnly)
  from sameManager_returnPage assms show "configuredOnly (snd (returnPage p st))"
    by (rule sameManager_configuredOnly)
  show "configuredOnly st'"
    if "wellFormed st" "healthCheckTick fuel st = Some (res, st')"
    using healthCheckLoop_configuredOnly [OF that(1) assms] that(2)
    by (simp add: healthCheckTick_def)
  show "configuredOnly (cleanup st)"
    by (simp add: configuredOnly_def cleanup_def Let_def map_keys_def map_entries_clear)
qed

section \<open>The claims\<close>

subsection \<open>C1: the bound on the pools\<close>

text \<open>
  Claim C1. Run one after the other, the methods keep every pool of the map within
  \<^verbatim>\<open>PAGE_POOL_SIZE\<close> (lemmas \<open>pool_bounded_preserved\<close> and \<open>cleanup_pool_bounded\<close>),
  \<^verbatim>\<open>returnPage\<close> appends to a pool only if it had room when the call began (lemma
  \<open>returnPage_pushes_with_room\<close>), and a successful \<^verbatim>\<open>connectToBrowser\<close> creates
  exactly \<^verbatim>\<open>PAGE_POOL_SIZE\<close> pages, which are the new pool (lemma
  \<open>connectToBrowser_warm\<close>).

  But \<^verbatim>\<open>returnPage\<close> tests the length of the pool (line 234) before it awaits the
  reset of the page (line 235) and appends after it (line 236). Two calls that overlap
  both pass the test. From the state \<open>busyState\<close>, whose pool holds nine pages: the
  return of page 9 begins and waits for its navigation; the return of page 10 begins and
  waits for its navigation; the first resumes and appends page 9; the second resumes and
  appends page 10. The pool then holds eleven pages.
\<close>

theorem overlapping_returns_overflow:
  "pagePool (heap busyState 0) = [0, 1, 2, 3, 4, 5, 6, 7, 8] \<and>
   fst (returnPage_begin 9 busyState) = Some (PendingReturn 0 0 9 (Inr ())) \<and>
   fst (returnPage_begin 10 (snd (returnPage_begin 9 busyState))) =
     Some (PendingReturn 0 0 10 (Inr ())) \<and>
   pagePool (heap
     (returnPage_resume (PendingReturn 0 0 10 (Inr ()))
       (returnPage_resume (PendingReturn 0 0 9 (Inr ()))
         (snd (returnPage_begin 10 (snd (returnPage_begin 9 busyState)))))) 0) =
     [0, 1, 2, 3, 4, 5, 6, 7, 8, 9, 10] \<and>
   PAGE_POOL_SIZE < length (pagePool (heap
     (returnPage_resume (PendingReturn 0 0 10 (Inr ()))
       (returnPage_resume (PendingReturn 0 0 9 (Inr ()))
         (snd (returnPage_begin 10 (snd (returnPage_begin 9 busyState)))))) 0))"
proof -
  let ?g9 = "Goto 9 ''about:blank'' (Some 500)"
  let ?g10 = "Goto 10 ''about:blank'' (Some 500)"
  have room: "length (pagePool (heap busyState 0)) < PAGE_POOL_SIZE"
    by (simp add: busyState_facts PAGE_POOL_SIZE_def)
  have b9: "returnPage_begin 9 busyState = (Some (PendingReturn 0 0 9 (Inr ())), emit ?g9 busyState)"
    using returnPage_begin_room [OF busyState_facts(2) room]
    by (simp add: succeeds_def busyState_facts)
  have room': "length (pagePool (heap (emit ?g9 busyState) 0)) < PAGE_POOL_SIZE"
    using room by (simp add: emit_heap)
  have own': "findInstanceByPage 10 (emit ?g9 busyState) = Some 0"
    by (simp add: findInstanceByPage_emit busyState_facts)
  have b10: "returnPage_begin 10 (emit ?g9 busyState) =
      (Some (PendingReturn 0 0 10 (Inr ())), emit ?g10 (emit ?g9 busyState))"
    using returnPage_begin_room [OF own' room']
    by (simp add: succeeds_def busyState_facts emit_outcome)
  show ?thesis
    by (simp add: b9 b10 busyState_facts(1) emit_heap PAGE_POOL_SIZE_def)
qed

subsection \<open>C2: no page available\<close>

text \<open>
  Claim C2, as the source has it. With no healthy instance, \<^verbatim>\<open>getAvailablePage\<close>
  logs a warning and runs \<^verbatim>\<open>initializeConnections\<close> (the recovery); it returns null
  when the recovery returns normally. With at least one healthy instance it never
  throws, attempts no connection and leaves the map as it is. It then returns null
  exactly when every candidate is exhausted; and when every candidate is exhausted it
  returns null, every candidate has been marked unhealthy, and the last thing done is to
  log that all instances failed.
\<close>

theorem getAvailablePage_exhaustion:
  "(healthyInstances st = [] \<longrightarrow>
      snd (getAvailablePage st) = snd (initializeConnections (logger Warn NoHealthyInstances st)) \<and>
      (fst (initializeConnections (logger Warn NoHealthyInstances st)) = Inr () \<longrightarrow>
         fst (getAvailablePage st) = Inr None)) \<and>
   (healthyInstances st \<noteq> [] \<longrightarrow>
      (\<exists>page. fst (getAvailablePage st) = Inr page) \<and>
      connects (trace (snd (getAvailablePage st))) = connects (trace st) \<and>
      browserInstances (snd (getAvailablePage st)) = browserInstances st \<and>
      (fst (getAvailablePage st) = Inr None) = exhausted (healthyInstances st) st \<and>
      (exhausted (healthyInstances st) st \<longrightarrow>
         fst (getAvailablePage st) = Inr None \<and>
         (\<forall>r \<in> set (healthyInstances st). \<not> healthy (heap (snd (getAvailablePage st)) r)) \<and>
         last (trace (snd (getAvailablePage st))) = Log Error AllInstancesFailed))"
proof (intro conjI impI)
  assume z: "healthyInstances st = []"
  then show "snd (getAvailablePage st) =
             snd (initializeConnections (logger Warn NoHealthyInstances st))"
    by (simp add: getAvailablePage_def attemptRecovery_all_def case_prod_unfold
        split: sum.splits)
  assume "fst (initializeConnections (logger Warn NoHealthyInstances st)) = Inr ()"
  with z show "fst (getAvailablePage st) = Inr None"
    by (simp add: getAvailablePage_def attemptRecovery_all_def case_prod_unfold)
next
  assume nz: "healthyInstances st \<noteq> []"
  obtain x st' where t: "tryInstances (healthyInstances st) st = (x, st')"
    by (cases "tryInstances (healthyInstances st) st")
  from nz t have g: "getAvailablePage st = (Inr x, st')"
    by (simp add: getAvailablePage_def)
  note f = tryInstances_frame [OF t]
  from tryInstances_None_iff [of "healthyInstances st" st] t
  have ex: "(x = None) = exhausted (healthyInstances st) st" by simp
  show "\<exists>page. fst (getAvailablePage st) = Inr page"
    using g by simp
  show "connects (trace (snd (getAvailablePage st))) = connects (trace st)"
    using g f by simp
  show "browserInstances (snd (getAvailablePage st)) = browserInstances st"
    using g f by simp
  show "(fst (getAvailablePage st) = Inr None) = exhausted (healthyInstances st) st"
    using g ex by simp
  assume "exhausted (healthyInstances st) st"
  with ex have "x = None" by simp
  with f g show "fst (getAvailablePage st) = Inr None"
    and "\<forall>r \<in> set (healthyInstances st). \<not> healthy (heap (snd (getAvailablePage st)) r)"
    and "last (trace (snd (getAvailablePage st))) = Log Error AllInstancesFailed"
    by simp_all
qed

theorem getAvailablePage_exhaustion_witness:
  "healthyInstances (freshManager (\<lambda>h c. True) (Some ''a'')) = [] \<and>
   fst (initializeConnections (logger Warn NoHealthyInstances
          (freshManager (\<lambda>h c. True) (Some ''a'')))) = Inr () \<and>
   fst (getAvailablePage (freshManager (\<lambda>h c. True) (Some ''a''))) = Inr None \<and>
   healthyInstances (poolState 1 (\<lambda>h c. False)) = [0] \<and>
   exhausted [0] (poolState 1 (\<lambda>h c. False)) \<and>
   fst (getAvailablePage (poolState 1 (\<lambda>h c. False))) = Inr None \<and>
   \<not> healthy (heap (snd (getAvailablePage (poolState 1 (\<lambda>h c. False)))) 0) \<and>
   connects (trace (snd (getAvailablePage (poolState 1 (\<lambda>h c. False))))) = [] \<and>
   last (trace (snd (getAvailablePage (poolState 1 (\<lambda>h c. False))))) =
     Log Error AllInstancesFailed \<and>
   healthyInstances (twoInstances (\<lambda>h c. False)) = [0, 1] \<and>
   exhausted [0, 1] (twoInstances (\<lambda>h c. False)) \<and>
   fst (getAvailablePage (twoInstances (\<lambda>h c. False))) = Inr None \<and>
   \<not> healthy (heap (snd (getAvailablePage (twoInstances (\<lambda>h c. False)))) 0) \<and>
   \<not> healthy (heap (snd (getAvailablePage (twoInstances (\<lambda>h c. False)))) 1)"
proof -
  let ?A = "freshManager (\<lambda>h c. True) (Some ''a'')"
  let ?B = "poolState 1 (\<lambda>h c. False)"
  let ?C = "twoInstances (\<lambda>h c. False)"
  have a1: "healthyInstances ?A = []"
    by (simp add: freshManager_def map_defs healthyInstances_def)
  have a2: "fst (initializeConnections (logger Warn NoHealthyInstances ?A)) = Inr ()"
    by (simp add: freshManager_def world_defs map_defs manager_defs const_defs unroll
        cong: let_weak_cong)
  have b1: "healthyInstances ?B = [0]"
    by (simp add: scenario_defs map_defs healthyInstances_def)
  have b2: "exhausted [0] ?B"
    by (simp add: candidateFails_def scenario_defs world_defs)
  have b3: "connects (trace ?B) = []"
    by (simp add: poolState_facts)
  have c1: "healthyInstances ?C = [0, 1]"
    by (simp add: twoInstances_def map_defs healthyInstances_def)
  have c2: "exhausted [0, 1] ?C"
    by (simp add: candidateFails_def twoInstances_def world_defs map_defs manager_defs
        cong: let_weak_cong)
  from getAvailablePage_exhaustion [of ?A] a1 a2
  have wa: "fst (getAvailablePage ?A) = Inr None" by simp
  from getAvailablePage_exhaustion [of ?B] b1 b2 b3
  have wb: "fst (getAvailablePage ?B) = Inr None \<and>
            \<not> healthy (heap (snd (getAvailablePage ?B)) 0) \<and>
            connects (trace (snd (getAvailablePage ?B))) = [] \<and>
            last (trace (snd (getAvailablePage ?B))) = Log Error AllInstancesFailed"
    by simp
  from getAvailablePage_exhaustion [of ?C] c1 c2
  have wc: "fst (getAvailablePage ?C) = Inr None \<and>
            \<not> healthy (heap (snd (getAvailablePage ?C)) 0) \<and>
            \<not> healthy (heap (snd (getAvailablePage ?C)) 1)"
    by simp
  from a1 a2 wa b1 b2 wb c1 c2 wc show ?thesis by simp
qed

text \<open>
  The claim as stated fails twice. A healthy instance with an empty pool whose browser
  refuses a new page: null is returned and the only calls are the refused
  \<^verbatim>\<open>newPage\<close> and two log lines, so no recovery was attempted although an endpoint
  is configured. And with no instance at all and an endpoint that refuses the
  connection, the error of \<^verbatim>\<open>initializeConnections\<close> leaves \<^verbatim>\<open>getAvailablePage\<close>
  as an exception.
\<close>

theorem getAvailablePage_exhaustion_counterexample:
  "healthyInstances (poolState 0 (\<lambda>h c. False)) = [0] \<and>
   getEndpoints (poolState 0 (\<lambda>h c. False)) = [''a''] \<and>
   fst (getAvailablePage (poolState 0 (\<lambda>h c. False))) = Inr None \<and>
   trace (snd (getAvailablePage (poolState 0 (\<lambda>h c. False)))) =
     [NewPage 0, Log Error (FailedToCreateFromInstance ''a''), Log Error AllInstancesFailed] \<and>
   healthyInstances (freshManager (\<lambda>h c. False) (Some ''a'')) = [] \<and>
   fst (getAvailablePage (freshManager (\<lambda>h c. False) (Some ''a''))) = Inl AllConnectionsFailed"
proof -
  have "healthyInstances (poolState 0 (\<lambda>h c. False)) = [0] \<and>
        getEndpoints (poolState 0 (\<lambda>h c. False)) = [''a'']"
    by (simp add: scenario_defs map_defs healthyInstances_def getEndpoints_def)
  moreover
  have "fst (getAvailablePage (poolState 0 (\<lambda>h c. False))) = Inr None \<and>
        trace (snd (getAvailablePage (poolState 0 (\<lambda>h c. False)))) =
          [NewPage 0, Log Error (FailedToCreateFromInstance ''a''), Log Error AllInstancesFailed]"
    by (simp add: scenario_defs world_defs map_defs manager_defs cong: let_weak_cong)
  moreover
  have "healthyInstances (freshManager (\<lambda>h c. False) (Some ''a'')) = [] \<and>
        fst (getAvailablePage (freshManager (\<lambda>h c. False) (Some ''a''))) = Inl AllConnectionsFailed"
    by (simp add: freshManager_def world_defs map_defs manager_defs cong: let_weak_cong)
  ultimately show ?thesis by simp
qed

subsection \<open>C3: bringing the connections up\<close>

text \<open>
  Claim C3, as the source has it, for a call of \<^verbatim>\<open>initializeConnections\<close> that runs
  from its first line to its return with no other call on the manager in between. With
  no endpoint configured it throws the no-endpoints error and nothing else happens. It
  returns normally exactly when an endpoint is configured and the map is not empty
  afterwards. With an endpoint configured, every endpoint is attempted, in order,
  whatever failed before; each failed endpoint is logged (once by
  \<^verbatim>\<open>connectToBrowser\<close>, once by the loop); and the call throws the
  all-connections-failed error exactly when the map is empty afterwards. When the
  endpoints are pairwise distinct and the map holds no instance for another endpoint
  (\<open>configuredOnly\<close>, which holds as long as the environment variable stays the
  same), the call succeeds if and only if at least one endpoint connected.
\<close>

theorem initializeConnections_outcome:
  "(getEndpoints st = [] \<longrightarrow> initializeConnections st = (Inl NoEndpointsConfigured, st)) \<and>
   (fst (initializeConnections st) = Inr ()) =
     (getEndpoints st \<noteq> [] \<and> map_size (browserInstances (snd (initializeConnections st))) \<noteq> 0) \<and>
   (getEndpoints st \<noteq> [] \<longrightarrow>
      connects (trace (snd (initializeConnections st))) = connects (trace st) @ getEndpoints st \<and>
      failureLogs (trace (snd (initializeConnections st))) =
        failureLogs (trace st) @
        concat (map (\<lambda>ep. [ep, ep]) (failedEndpoints (getEndpoints st) st)) \<and>
      fst (initializeConnections st) =
        (if map_size (browserInstances (snd (initializeConnections st))) = 0
         then Inl AllConnectionsFailed else Inr ()) \<and>
      (distinct (getEndpoints st) \<and>
       map_keys (browserInstances st) \<subseteq> set (getEndpoints st) \<longrightarrow>
         (fst (initializeConnections st) = Inr ()) =
         (connectedEndpoints (getEndpoints st) st \<noteq> [])))"
proof (intro conjI impI)
  assume "getEndpoints st = []"
  then show "initializeConnections st = (Inl NoEndpointsConfigured, st)"
    by (simp add: initializeConnections_def)
next
  show "(fst (initializeConnections st) = Inr ()) =
     (getEndpoints st \<noteq> [] \<and> map_size (browserInstances (snd (initializeConnections st))) \<noteq> 0)"
    by (simp add: initializeConnections_def Let_def)
next
  assume ne: "getEndpoints st \<noteq> []"
  have st': "snd (initializeConnections st) = connectEach (getEndpoints st) st"
    using ne by (simp add: initializeConnections_def Let_def)
  show "connects (trace (snd (initializeConnections st))) = connects (trace st) @ getEndpoints st"
    by (simp add: st' connectEach_connects)
  show "failureLogs (trace (snd (initializeConnections st))) =
        failureLogs (trace st) @
        concat (map (\<lambda>ep. [ep, ep]) (failedEndpoints (getEndpoints st) st))"
    by (simp add: st' connectEach_failureLogs)
  show res: "fst (initializeConnections st) =
        (if map_size (browserInstances (snd (initializeConnections st))) = 0
         then Inl AllConnectionsFailed else Inr ())"
    using ne by (simp add: initializeConnections_def Let_def)
  assume "distinct (getEndpoints st) \<and>
       map_keys (browserInstances st) \<subseteq> set (getEndpoints st)"
  then have d: "distinct (getEndpoints st)"
    and sub: "map_keys (browserInstances st) \<subseteq> set (getEndpoints st)"
    by simp_all
  from connectEach_keys [OF d, of st] sub
  have "map_keys (browserInstances (connectEach (getEndpoints st) st)) =
        set (connectedEndpoints (getEndpoints st) st)"
    by auto
  then have "(map_size (browserInstances (snd (initializeConnections st))) = 0) =
             (connectedEndpoints (getEndpoints st) st = [])"
    by (simp add: st' map_size_0_iff)
  with res show "(fst (initializeConnections st) = Inr ()) =
         (connectedEndpoints (getEndpoints st) st \<noteq> [])"
    by simp
qed

theorem initializeConnections_outcome_witness:
  "getEndpoints (freshManager firstOnly None) = [] \<and>
   fst (initializeConnections (freshManager firstOnly None)) = Inl NoEndpointsConfigured \<and>
   getEndpoints (freshManager firstOnly (Some ''a,b'')) = [''a'', ''b''] \<and>
   distinct (getEndpoints (freshManager firstOnly (Some ''a,b''))) \<and>
   map_keys (browserInstances (freshManager firstOnly (Some ''a,b''))) = {} \<and>
   connectedEndpoints [''a'', ''b''] (freshManager firstOnly (Some ''a,b'')) = [''a''] \<and>
   fst (initializeConnections (freshManager firstOnly (Some ''a,b''))) = Inr () \<and>
   connects (trace (snd (initializeConnections (freshManager firstOnly (Some ''a,b''))))) =
     [''a'', ''b''] \<and>
   failureLogs (trace (snd (initializeConnections (freshManager firstOnly (Some ''a,b''))))) =
     [''b'', ''b'']"
proof -
  let ?A = "freshManager firstOnly None"
  let ?B = "freshManager firstOnly (Some ''a,b'')"
  have a: "getEndpoints ?A = []"
    by (simp add: getEndpoints_def freshManager_def)
  have b1: "getEndpoints ?B = [''a'', ''b'']"
    by (simp add: getEndpoints_def freshManager_def)
  have b2: "map_keys (browserInstances ?B) = {}"
    by (simp add: freshManager_def map_keys_def)
  have b3: "connectedEndpoints [''a'', ''b''] ?B = [''a'']"
    by (simp add: freshManager_def firstOnly_def world_defs map_defs manager_defs const_defs
        unroll cong: let_weak_cong)
  have b4: "failedEndpoints [''a'', ''b''] ?B = [''b'']"
    by (simp add: freshManager_def firstOnly_def world_defs map_defs manager_defs const_defs
        unroll cong: let_weak_cong)
  have b5: "trace ?B = []"
    by (simp add: freshManager_def)
  from initializeConnections_outcome [of ?A] a
  have wa: "fst (initializeConnections ?A) = Inl NoEndpointsConfigured" by simp
  from initializeConnections_outcome [of ?B] b1 b2 b3 b4 b5
  have wb: "fst (initializeConnections ?B) = Inr () \<and>
            connects (trace (snd (initializeConnections ?B))) = [''a'', ''b''] \<and>
            failureLogs (trace (snd (initializeConnections ?B))) = [''b'', ''b'']"
    by (auto simp del: connectedEndpoints.simps failedEndpoints.simps split: if_splits)
  from a wa b1 b2 b3 wb show ?thesis
    by (simp del: connectedEndpoints.simps failedEndpoints.simps)
qed

text \<open>
  The claim as stated (success if and only if at least one endpoint connects) fails
  twice, because the \<^verbatim>\<open>catch\<close> block of \<^verbatim>\<open>connectToBrowser\<close> closes and removes
  whatever instance the map holds for the endpoint.

  Without distinctness: with the endpoint \<open>a\<close> configured twice, a first attempt
  that connects and a second that is refused, the second attempt removes the instance
  the first one registered, and \<^verbatim>\<open>initializeConnections\<close> throws although an endpoint
  connected.

  With two calls that overlap, on the distinct endpoints \<open>a\<close> and \<open>b\<close>, in a world
  where only the first connection attempt succeeds: both calls pass the test of the
  endpoint list; the first call connects \<open>a\<close>; the attempt of the second call on
  \<open>a\<close> is refused and removes that instance; both attempts on \<open>b\<close> are refused; the
  first call finds the map empty and throws, although its attempt on \<open>a\<close> connected.
\<close>

theorem initializeConnections_counterexample:
  "getEndpoints (freshManager firstOnly (Some ''a,a'')) = [''a'', ''a''] \<and>
   connectedEndpoints [''a'', ''a''] (freshManager firstOnly (Some ''a,a'')) = [''a''] \<and>
   fst (initializeConnections (freshManager firstOnly (Some ''a,a''))) = Inl AllConnectionsFailed \<and>
   initializeConnections_begin (freshManager firstOnly (Some ''a,b'')) = Inr [''a'', ''b''] \<and>
   fst (connectToBrowser ''a'' (freshManager firstOnly (Some ''a,b''))) = Inr () \<and>
   fst (initializeConnections_end
         (initializeConnections_attempt ''b''
           (initializeConnections_attempt ''b''
             (initializeConnections_attempt ''a''
               (initializeConnections_attempt ''a''
                 (freshManager firstOnly (Some ''a,b''))))))) = Inl AllConnectionsFailed"
proof -
  have "getEndpoints (freshManager firstOnly (Some ''a,a'')) = [''a'', ''a'']"
    by (simp add: getEndpoints_def freshManager_def)
  moreover
  have "connectedEndpoints [''a'', ''a''] (freshManager firstOnly (Some ''a,a'')) = [''a'']"
    by (simp add: freshManager_def firstOnly_def world_defs map_defs manager_defs const_defs
        unroll cong: let_weak_cong)
  moreover
  have "fst (initializeConnections (freshManager firstOnly (Some ''a,a''))) = Inl AllConnectionsFailed"
    by (simp add: freshManager_def firstOnly_def world_defs map_defs manager_defs const_defs
        unroll cong: let_weak_cong)
  moreover
  have "initializeConnections_begin (freshManager firstOnly (Some ''a,b'')) = Inr [''a'', ''b'']"
    by (simp add: initializeConnections_begin_def getEndpoints_def freshManager_def)
  moreover
  have "fst (connectToBrowser ''a'' (freshManager firstOnly (Some ''a,b''))) = Inr ()"
    by (simp add: freshManager_def firstOnly_def world_defs map_defs manager_defs const_defs
        unroll cong: let_weak_cong)
  moreover
  have "fst (initializeConnections_end
         (initializeConnections_attempt ''b''
           (initializeConnections_attempt ''b''
             (initializeConnections_attempt ''a''
               (initializeConnections_attempt ''a''
                 (freshManager firstOnly (Some ''a,b''))))))) = Inl AllConnectionsFailed"
    by (simp add: initializeConnections_end_def initializeConnections_attempt_def
        freshManager_def firstOnly_def world_defs map_defs manager_defs const_defs
        unroll cong: let_weak_cong)
  ultimately show ?thesis by simp
qed

subsection \<open>C4: a returned page is pooled or closed\<close>

text \<open>
  Claim C4. \<^verbatim>\<open>returnPage\<close> never throws. If no instance owns the page, the page is
  closed. If the owner's pool is full, the page is closed by the last call made and no
  pool changes. If anything throws inside the \<^verbatim>\<open>try\<close> block, the page is closed by
  the last call made and no pool changes. In every case the page ends up closed or as
  the last page of its owner's pool.
\<close>

theorem returnPage_never_leaks:
  "fst (returnPage p st) = Inr () \<and>
   (findInstanceByPage p st = None \<longrightarrow>
      page_isClosed p (snd (returnPage p st)) \<and>
      ClosePage p \<in> set (trace (snd (returnPage p st))) \<and>
      heap (snd (returnPage p st)) = heap st) \<and>
   (\<forall>r. findInstanceByPage p st = Some r \<longrightarrow>
      (length (pagePool (heap st r)) = PAGE_POOL_SIZE \<longrightarrow>
         page_isClosed p (snd (returnPage p st)) \<and>
         last (trace (snd (returnPage p st))) = ClosePage p \<and>
         heap (snd (returnPage p st)) = heap st) \<and>
      (fst (returnPage_try r p st) \<noteq> Inr () \<longrightarrow>
         page_isClosed p (snd (returnPage p st)) \<and>
         last (trace (snd (returnPage p st))) = ClosePage p \<and>
         heap (snd (returnPage p st)) = heap st) \<and>
      (page_isClosed p (snd (returnPage p st)) \<or>
       pagePool (heap (snd (returnPage p st)) r) = pagePool (heap st r) @ [p]))"
proof (intro conjI allI impI)
  show "fst (returnPage p st) = Inr ()"
    by (rule returnPage_no_exception)
next
  assume "findInstanceByPage p st = None"
  then show "page_isClosed p (snd (returnPage p st))"
    and "ClosePage p \<in> set (trace (snd (returnPage p st)))"
    and "heap (snd (returnPage p st)) = heap st"
    by (rule returnPage_orphan)+
next
  fix r
  assume own: "findInstanceByPage p st = Some r"
  {
    assume "length (pagePool (heap st r)) = PAGE_POOL_SIZE"
    then have full: "snd (returnPage p st) = snd (page_close p st)"
      using returnPage_full [OF own] by simp
    show "page_isClosed p (snd (returnPage p st))"
      and "last (trace (snd (returnPage p st))) = ClosePage p"
      and "heap (snd (returnPage p st)) = heap st"
      by (simp_all add: full page_close_closed page_close_trace page_close_heap)
  }
  {
    assume fails: "fst (returnPage_try r p st) \<noteq> Inr ()"
    note c = returnPage_caught [OF own fails]
    show "page_isClosed p (snd (returnPage p st))"
      and "last (trace (snd (returnPage p st))) = ClosePage p"
      and "heap (snd (returnPage p st)) = heap st"
      using returnPage_try_fails_heap [OF fails]
      by (simp_all add: c page_close_closed page_close_trace page_close_heap logger_heap)
  }
  show "page_isClosed p (snd (returnPage p st)) \<or>
        pagePool (heap (snd (returnPage p st)) r) = pagePool (heap st r) @ [p]"
  proof (cases "fst (returnPage_try r p st) = Inr ()")
    case False
    then show ?thesis
      using returnPage_caught [OF own False] by (simp add: page_close_closed)
  next
    case True
    then have eq: "snd (returnPage p st) = snd (returnPage_try r p st)"
      using own by (cases "returnPage_try r p st") (auto simp: returnPage_def)
    show ?thesis
    proof (cases "length (pagePool (heap st r)) < PAGE_POOL_SIZE")
      case False
      then show ?thesis
        using returnPage_full [OF own False] by (simp add: page_close_closed)
    next
      case room: True
      from True room obtain q where q: "fst (resetPage p st) = Inr q"
        by (auto simp: returnPage_try_def case_prod_unfold split: sum.splits)
      from room q have st': "snd (returnPage_try r p st) =
          (snd (resetPage p st))\<lparr>heap := (heap (snd (resetPage p st)))(r :=
             (heap (snd (resetPage p st)) r)\<lparr>pagePool := pagePool (heap (snd (resetPage p st)) r) @ [q]\<rparr>)\<rparr>"
        by (simp add: returnPage_try_def case_prod_unfold)
      from resetPage_result [OF own q] show ?thesis
      proof
        assume "q = p"
        then show ?thesis by (simp add: eq st' resetPage_heap)
      next
        assume "page_isClosed p (snd (resetPage p st))"
        then show ?thesis by (simp add: eq st' page_isClosed_def)
      qed
    qed
  qed
qed

theorem returnPage_never_leaks_witness:
  "findInstanceByPage 10 (poolState 9 (\<lambda>h c. True)) = None \<and>
   page_isClosed 10 (snd (returnPage 10 (poolState 9 (\<lambda>h c. True)))) \<and>
   findInstanceByPage 10 (poolState 10 (\<lambda>h c. True)) = Some 0 \<and>
   length (pagePool (heap (poolState 10 (\<lambda>h c. True)) 0)) = PAGE_POOL_SIZE \<and>
   page_isClosed 10 (snd (returnPage 10 (poolState 10 (\<lambda>h c. True)))) \<and>
   pagePool (heap (snd (returnPage 10 (poolState 10 (\<lambda>h c. True)))) 0) = [0..<10] \<and>
   findInstanceByPage 9 (poolState 9 (\<lambda>h c. False)) = Some 0 \<and>
   fst (returnPage_try 0 9 (poolState 9 (\<lambda>h c. False))) \<noteq> Inr () \<and>
   page_isClosed 9 (snd (returnPage 9 (poolState 9 (\<lambda>h c. False)))) \<and>
   last (trace (snd (returnPage 9 (poolState 9 (\<lambda>h c. False))))) = ClosePage 9"
proof -
  have orphan: "findInstanceByPage 10 (poolState 9 (\<lambda>h c. True)) = None"
    using poolState_facts(7) [of 9] by simp
  have w1: "page_isClosed 10 (snd (returnPage 10 (poolState 9 (\<lambda>h c. True))))"
    using returnPage_never_leaks [of 10 "poolState 9 (\<lambda>h c. True)"] orphan by simp
  have own2: "findInstanceByPage 10 (poolState 10 (\<lambda>h c. True)) = Some 0"
    by (rule poolState_facts)
  have full: "length (pagePool (heap (poolState 10 (\<lambda>h c. True)) 0)) = PAGE_POOL_SIZE"
    by (simp add: poolState_facts PAGE_POOL_SIZE_def)
  have w2: "page_isClosed 10 (snd (returnPage 10 (poolState 10 (\<lambda>h c. True)))) \<and>
            heap (snd (returnPage 10 (poolState 10 (\<lambda>h c. True)))) = heap (poolState 10 (\<lambda>h c. True))"
    using returnPage_never_leaks [of 10 "poolState 10 (\<lambda>h c. True)"] own2 full by simp
  have own3: "findInstanceByPage 9 (poolState 9 (\<lambda>h c. False)) = Some 0"
    by (rule poolState_facts)
  have "fst (resetPage 9 (poolState 9 (\<lambda>h c. False))) = Inl (NewPageError 0)"
    using resetPage_cases [of 9 "poolState 9 (\<lambda>h c. False)"]
    by (simp add: own3 succeeds_def poolState_facts)
  then have fails: "fst (returnPage_try 0 9 (poolState 9 (\<lambda>h c. False))) \<noteq> Inr ()"
    by (simp add: returnPage_try_def case_prod_unfold poolState_facts PAGE_POOL_SIZE_def)
  have w3: "page_isClosed 9 (snd (returnPage 9 (poolState 9 (\<lambda>h c. False)))) \<and>
            last (trace (snd (returnPage 9 (poolState 9 (\<lambda>h c. False))))) = ClosePage 9"
    using returnPage_never_leaks [of 9 "poolState 9 (\<lambda>h c. False)"] own3 fails by simp
  show ?thesis
    using orphan w1 own2 full w2 own3 fails w3 by (simp add: poolState_facts)
qed

subsection \<open>C5: the backoff delays\<close>



subsection \<open>C6: a failing probe and the rest of the tick\<close>

text \<open>
  Claim C6, as the source has it. No failure of a probe leaves the health-check tick,
  or the check of one connection, as an exception. The check of a connection whose
  probe fails returns only when the reconnection loop for that connection has
  succeeded: \<^verbatim>\<open>checkBrowserHealth\<close> awaits \<^verbatim>\<open>attemptRecovery\<close> (line 276), and the tick
  awaits \<^verbatim>\<open>checkBrowserHealth\<close> (line 325). Once the check of the connection the
  iterator stands at has returned, the tick goes on from the next slot of the map, in
  the state the check left. And in a well-formed state, a tick (or the rest of a tick,
  from slot \<open>i\<close> on) that returns has probed every connection that was registered
  from that slot on when it began: the recovery of one connection removes no other from
  the map.

  The witness is a tick in which the probe of \<open>a\<close> fails, the reconnection succeeds at
  once, and the tick then checks \<open>b\<close> and the new instance for \<open>a\<close>.
\<close>

theorem healthCheck_fault_isolation:
  "healthCheckTick fuel st \<noteq> Some (Inl e, st') \<and>
   (checkBrowserHealth fuel r st = Some (res, st1) \<longrightarrow>
      res = Inr () \<and>
      (fst (checkBrowserHealth_try r st) = Inr () \<or>
       (\<exists>ep. last (trace st1) = Log Info (SuccessfullyReconnected ep))) \<and>
      (\<forall>i ep i'. map_next i (browserInstances st) = Some ((ep, r), i') \<longrightarrow>
         healthCheckLoop (Suc fuel) i st = healthCheckLoop fuel i' st1)) \<and>
   (wellFormed st \<and> healthCheckLoop fuel i st = Some (res', st2) \<longrightarrow>
      (\<forall>c \<in> set (map_entries (drop i (browserInstances st))).
         IsConnected (browser (heap st (snd c))) \<in> set (drop (length (trace st)) (trace st2))))"
proof (intro conjI impI allI)
  show "healthCheckTick fuel st \<noteq> Some (Inl e, st')"
    by (simp add: healthCheckTick_def healthCheckLoop_never_throws)
next
  assume c: "checkBrowserHealth fuel r st = Some (res, st1)"
  then show "res = Inr ()"
    using checkBrowserHealth_never_throws [of fuel r st _ st1]
    by (cases res) auto
  show "fst (checkBrowserHealth_try r st) = Inr () \<or>
        (\<exists>ep. last (trace st1) = Log Info (SuccessfullyReconnected ep))"
  proof (cases "fst (checkBrowserHealth_try r st)")
    case (Inr u)
    then show ?thesis by simp
  next
    case (Inl x)
    with c show ?thesis
      by (auto simp: checkBrowserHealth_def attemptRecovery_def Let_def case_prod_unfold
          split: option.splits dest: reconnectLoop_Some_last)
  qed
  fix i ep i'
  assume "map_next i (browserInstances st) = Some ((ep, r), i')"
  from healthCheckLoop_goes_on [OF this c]
  show "healthCheckLoop (Suc fuel) i st = healthCheckLoop fuel i' st1" .
next
  assume "wellFormed st \<and> healthCheckLoop fuel i st = Some (res', st2)"
  then have "wellFormed st" and "healthCheckLoop fuel i st = Some (res', st2)"
    by simp_all
  from healthCheckLoop_probes [OF this]
  show "\<forall>c \<in> set (map_entries (drop i (browserInstances st))).
         IsConnected (browser (heap st (snd c))) \<in> set (drop (length (trace st)) (trace st2))"
    by simp
qed

theorem healthCheck_fault_isolation_witness:
  "fst (checkBrowserHealth_try 0 (twoInstances (\<lambda>h c. c \<noteq> IsConnected 0))) \<noteq> Inr () \<and>
   map_next 0 (browserInstances (twoInstances (\<lambda>h c. c \<noteq> IsConnected 0))) = Some ((''a'', 0), 1) \<and>
   wellFormed (twoInstances (\<lambda>h c. c \<noteq> IsConnected 0)) \<and>
   (\<exists>st1 ep. checkBrowserHealth 4 0 (twoInstances (\<lambda>h c. c \<noteq> IsConnected 0)) = Some (Inr (), st1) \<and>
      last (trace st1) = Log Info (SuccessfullyReconnected ep) \<and>
      healthCheckTick 5 (twoInstances (\<lambda>h c. c \<noteq> IsConnected 0)) = healthCheckLoop 4 1 st1) \<and>
   (\<exists>st'. healthCheckTick 5 (twoInstances (\<lambda>h c. c \<noteq> IsConnected 0)) = Some (Inr (), st') \<and>
      IsConnected 0 \<in> set (trace st') \<and> IsConnected 1 \<in> set (trace st'))"
proof -
  let ?S = "twoInstances (\<lambda>h c. c \<noteq> IsConnected 0)"
  have probe: "fst (checkBrowserHealth_try 0 ?S) \<noteq> Inr ()"
    by (simp add: checkBrowserHealth_try_def browser_isConnected_def succeeds_def
        twoInstances_def)
  have nxt: "map_next 0 (browserInstances ?S) = Some ((''a'', 0), 1)"
    by (simp add: map_next_def twoInstances_def)
  have wf: "wellFormed ?S"
    by (simp add: wellFormed_def twoInstances_def)
  have ent: "map_entries (browserInstances ?S) = [(''a'', 0), (''b'', 1)]"
    and br: "browser (heap ?S k) = k" and tr: "trace ?S = []" for k
    by (simp_all add: twoInstances_def)
  have "checkBrowserHealth 4 0 ?S \<noteq> None"
    by (simp add: twoInstances_def world_defs map_defs manager_defs const_defs unroll
        Let_def cong: let_weak_cong)
  then obtain res st1 where c: "checkBrowserHealth 4 0 ?S = Some (res, st1)"
    by (cases "checkBrowserHealth 4 0 ?S") auto
  have "healthCheckTick 5 ?S \<noteq> None"
    by (simp add: twoInstances_def world_defs map_defs manager_defs const_defs unroll
        Let_def cong: let_weak_cong)
  then obtain res' st' where t: "healthCheckTick 5 ?S = Some (res', st')"
    by (cases "healthCheckTick 5 ?S") auto
  from healthCheck_fault_isolation [of 4 ?S _ _ 0 res st1] c probe nxt
  have w1: "res = Inr () \<and> (\<exists>ep. last (trace st1) = Log Info (SuccessfullyReconnected ep)) \<and>
            healthCheckLoop (Suc 4) 0 ?S = healthCheckLoop 4 1 st1"
    by simp
  from healthCheck_fault_isolation [of 5 ?S _ st', THEN conjunct1] t
  have w2: "res' = Inr ()"
    by (cases res') auto
  from healthCheck_fault_isolation [of 5 ?S _ _ _ _ _ 0 res' st', THEN conjunct2,
      THEN conjunct2] wf t
  have w3: "IsConnected 0 \<in> set (trace st') \<and> IsConnected 1 \<in> set (trace st')"
    by (simp add: healthCheckTick_def ent br tr)
  from w1 have w4: "healthCheckTick 5 ?S = healthCheckLoop 4 1 st1"
    by (simp add: healthCheckTick_def)
  from c w1 w4
  have e1: "\<exists>st1 ep. checkBrowserHealth 4 0 ?S = Some (Inr (), st1) \<and>
      last (trace st1) = Log Info (SuccessfullyReconnected ep) \<and>
      healthCheckTick 5 ?S = healthCheckLoop 4 1 st1"
    by auto
  from t w2 w3
  have e2: "\<exists>st'. healthCheckTick 5 ?S = Some (Inr (), st') \<and>
      IsConnected 0 \<in> set (trace st') \<and> IsConnected 1 \<in> set (trace st')"
    by auto
  from probe nxt wf e1 e2 show ?thesis by blast
qed

text \<open>
  The claim as stated promises that a failing probe never blocks the iteration over the
  remaining connections. With two connections, the probe of the first failing and its
  endpoint refusing every reconnection, the tick never gets to the second connection:
  whatever the fuel, it does not return.
\<close>

theorem healthCheck_blocks_counterexample:
  "\<forall>fuel. healthCheckTick fuel (twoInstances (\<lambda>h c. False)) = None"
proof
  fix fuel
  let ?S = "twoInstances (\<lambda>h c. False)"
  have probe: "fst (checkBrowserHealth_try 0 ?S) = Inl BrowserDisconnected"
    by (simp add: checkBrowserHealth_try_def browser_isConnected_def succeeds_def
        twoInstances_def)
  have nxt: "map_next 0 (browserInstances ?S) = Some ((''a'', 0), 1)"
    by (simp add: map_next_def twoInstances_def)
  have chk: "checkBrowserHealth n 0 ?S = None" for n
  proof -
    let ?st1 = "snd (checkBrowserHealth_try 0 ?S)"
    let ?st2 = "?st1\<lparr>heap := (heap ?st1)(0 := (heap ?st1 0)\<lparr>healthy := False\<rparr>)\<rparr>"
    let ?st3 = "logger Error (InstanceUnhealthy (endpoint (heap ?st2 0))) ?st2"
    have "outcome ?st3 = (\<lambda>h c. False)"
      by (simp add: logger_outcome checkBrowserHealth_try_def browser_isConnected_def
          succeeds_def emit_def twoInstances_def)
    then have "\<forall>h ep. \<not> outcome ?st3 h (Connect ep)" by simp
    from reconnectLoop_refused [OF this] probe show ?thesis
      by (simp add: checkBrowserHealth_def attemptRecovery_def Let_def case_prod_unfold)
  qed
  show "healthCheckTick fuel ?S = None"
    by (cases fuel) (simp_all add: healthCheckTick_def nxt chk)
qed

subsection \<open>C7: a page handed out is open\<close>

text \<open>
  Claim C7. Whenever \<^verbatim>\<open>getAvailablePage\<close> returns a page, the page is not closed in
  the state it returns in. Either the page did not exist when the call began (it was
  created by the call), or the last call made was the no-op evaluation of that page and
  it succeeded, which \<^verbatim>\<open>validatePage\<close> runs only on a page that is not closed.
\<close>

theorem getAvailablePage_returns_open_page:
  "getAvailablePage st = (Inr (Some p), st') \<Longrightarrow>
   \<not> page_isClosed p st' \<and>
   (length (pages st) \<le> p \<or>
    (last (trace st') = Evaluate p \<and> outcome st (butlast (trace st')) (Evaluate p)))"
proof -
  assume a: "getAvailablePage st = (Inr (Some p), st')"
  then have "tryInstances (healthyInstances st) st = (Some p, st')"
    by (auto simp: getAvailablePage_def Let_def split: if_splits prod.splits sum.splits)
  then show ?thesis by (rule tryInstances_Some)
qed

theorem getAvailablePage_returns_open_page_witness:
  "fst (getAvailablePage (poolState 2 (\<lambda>h c. True))) = Inr (Some 0) \<and>
   \<not> page_isClosed 0 (snd (getAvailablePage (poolState 2 (\<lambda>h c. True)))) \<and>
   last (trace (snd (getAvailablePage (poolState 2 (\<lambda>h c. True))))) = Evaluate 0 \<and>
   fst (getAvailablePage (poolState 2 (\<lambda>h c. \<not> isEvaluate c))) = Inr (Some 4) \<and>
   \<not> page_isClosed 4 (snd (getAvailablePage (poolState 2 (\<lambda>h c. \<not> isEvaluate c)))) \<and>
   page_isClosed 0 (snd (getAvailablePage (poolState 2 (\<lambda>h c. \<not> isEvaluate c))))"
proof -
  let ?A = "poolState 2 (\<lambda>h c. True)"
  let ?B = "poolState 2 (\<lambda>h c. \<not> isEvaluate c)"
  have a: "fst (getAvailablePage ?A) = Inr (Some 0)"
    by (simp add: scenario_defs world_defs map_defs manager_defs upt_rec replicate_unroll
        cong: let_weak_cong)
  then have a': "getAvailablePage ?A = (Inr (Some 0), snd (getAvailablePage ?A))"
    by (simp add: prod_eq_iff)
  have b: "fst (getAvailablePage ?B) = Inr (Some 4)"
    by (simp add: scenario_defs world_defs map_defs manager_defs upt_rec replicate_unroll
        cong: let_weak_cong)
  then have b': "getAvailablePage ?B = (Inr (Some 4), snd (getAvailablePage ?B))"
    by (simp add: prod_eq_iff)
  have c: "page_isClosed 0 (snd (getAvailablePage ?B))"
    by (simp add: scenario_defs world_defs map_defs manager_defs upt_rec replicate_unroll
        cong: let_weak_cong)
  have len: "length (pages ?A) = 4"
    by (simp add: poolState_facts)
  from getAvailablePage_returns_open_page [OF a'] getAvailablePage_returns_open_page [OF b']
    a b c len
  show ?thesis by simp
qed

subsection \<open>C8: resetting a page\<close>

text \<open>
  Claim C8. \<^verbatim>\<open>resetPage\<close> is private, and its one call (line 235) is made by
  \<^verbatim>\<open>returnPage\<close> for a page whose owner \<^verbatim>\<open>findInstanceByPage\<close> has just found (line
  225), in the same state. So the page passed to it always has an owner, which is what
  its own lookup (line 151) finds again: whenever \<^verbatim>\<open>returnPage\<close> gets as far as the
  navigation inside \<^verbatim>\<open>resetPage\<close>, both lookups have found the same instance. For a
  page with an owner, \<^verbatim>\<open>resetPage\<close> first navigates the page to \<^verbatim>\<open>about:blank\<close>
  with a timeout of 500 ms, and returns the page if that succeeds. If it fails, the page
  is closed and a secured page is created from the owner's browser and returned. The
  call throws exactly when the navigation failed and the creation of the replacement
  failed as well.
\<close>

theorem resetPage_outcomes:
  "(fst (returnPage_begin p st) = Some (PendingReturn r1 r2 q res) \<longrightarrow>
      findInstanceByPage p st = Some r1 \<and> r2 = r1 \<and> q = p) \<and>
   (findInstanceByPage p st = Some r \<longrightarrow>
     (succeeds (Goto p ''about:blank'' (Some 500)) st \<longrightarrow>
        fst (resetPage p st) = Inr p \<and>
        trace (snd (resetPage p st)) = trace st @ [Goto p ''about:blank'' (Some 500)]) \<and>
     (\<not> succeeds (Goto p ''about:blank'' (Some 500)) st \<longrightarrow>
        (outcome st (trace st @ [Goto p ''about:blank'' (Some 500), ClosePage p])
           (NewPage (browser (heap st r))) \<longrightarrow>
           fst (resetPage p st) = Inr (length (pages st)) \<and>
           trace (snd (resetPage p st)) = trace st @
             [Goto p ''about:blank'' (Some 500), ClosePage p, NewPage (browser (heap st r))] \<and>
           page_isClosed p (snd (resetPage p st)) \<and>
           pages (snd (resetPage p st)) ! length (pages st) = securedPage (browser (heap st r))) \<and>
        (\<not> outcome st (trace st @ [Goto p ''about:blank'' (Some 500), ClosePage p])
           (NewPage (browser (heap st r))) \<longrightarrow>
           fst (resetPage p st) = Inl (NewPageError (browser (heap st r))) \<and>
           trace (snd (resetPage p st)) = trace st @
             [Goto p ''about:blank'' (Some 500), ClosePage p, NewPage (browser (heap st r)),
              Log Error FailedToCreateAfterReset])) \<and>
     ((\<exists>e. fst (resetPage p st) = Inl e) =
      (\<not> succeeds (Goto p ''about:blank'' (Some 500)) st \<and>
       \<not> outcome st (trace st @ [Goto p ''about:blank'' (Some 500), ClosePage p])
           (NewPage (browser (heap st r))))))"
proof (rule conjI)
  show "fst (returnPage_begin p st) = Some (PendingReturn r1 r2 q res) \<longrightarrow>
      findInstanceByPage p st = Some r1 \<and> r2 = r1 \<and> q = p"
    using returnPage_begin_owner [of p st r1 r2 q res] by simp
next
  show "findInstanceByPage p st = Some r \<longrightarrow>
     (succeeds (Goto p ''about:blank'' (Some 500)) st \<longrightarrow>
        fst (resetPage p st) = Inr p \<and>
        trace (snd (resetPage p st)) = trace st @ [Goto p ''about:blank'' (Some 500)]) \<and>
     (\<not> succeeds (Goto p ''about:blank'' (Some 500)) st \<longrightarrow>
        (outcome st (trace st @ [Goto p ''about:blank'' (Some 500), ClosePage p])
           (NewPage (browser (heap st r))) \<longrightarrow>
           fst (resetPage p st) = Inr (length (pages st)) \<and>
           trace (snd (resetPage p st)) = trace st @
             [Goto p ''about:blank'' (Some 500), ClosePage p, NewPage (browser (heap st r))] \<and>
           page_isClosed p (snd (resetPage p st)) \<and>
           pages (snd (resetPage p st)) ! length (pages st) = securedPage (browser (heap st r))) \<and>
        (\<not> outcome st (trace st @ [Goto p ''about:blank'' (Some 500), ClosePage p])
           (NewPage (browser (heap st r))) \<longrightarrow>
           fst (resetPage p st) = Inl (NewPageError (browser (heap st r))) \<and>
           trace (snd (resetPage p st)) = trace st @
             [Goto p ''about:blank'' (Some 500), ClosePage p, NewPage (browser (heap st r)),
              Log Error FailedToCreateAfterReset])) \<and>
     ((\<exists>e. fst (resetPage p st) = Inl e) =
      (\<not> succeeds (Goto p ''about:blank'' (Some 500)) st \<and>
       \<not> outcome st (trace st @ [Goto p ''about:blank'' (Some 500), ClosePage p])
           (NewPage (browser (heap st r)))))"
  proof
  assume own: "findInstanceByPage p st = Some r"
  let ?g = "Goto p ''about:blank'' (Some 500)"
  let ?n = "outcome st (trace st @ [?g, ClosePage p]) (NewPage (browser (heap st r)))"
  note c = resetPage_cases [of p st, THEN conjunct2, rule_format, OF own]
  from c have a: "succeeds ?g st \<longrightarrow>
        fst (resetPage p st) = Inr p \<and>
        trace (snd (resetPage p st)) = trace st @ [?g]"
    by blast
  from c have b: "\<not> succeeds ?g st \<longrightarrow>
        (?n \<longrightarrow>
           fst (resetPage p st) = Inr (length (pages st)) \<and>
           trace (snd (resetPage p st)) = trace st @
             [?g, ClosePage p, NewPage (browser (heap st r))] \<and>
           page_isClosed p (snd (resetPage p st)) \<and>
           pages (snd (resetPage p st)) ! length (pages st) = securedPage (browser (heap st r))) \<and>
        (\<not> ?n \<longrightarrow>
           fst (resetPage p st) = Inl (NewPageError (browser (heap st r))) \<and>
           trace (snd (resetPage p st)) = trace st @
             [?g, ClosePage p, NewPage (browser (heap st r)),
              Log Error FailedToCreateAfterReset])"
    by blast
  have d: "(\<exists>e. fst (resetPage p st) = Inl e) = (\<not> succeeds ?g st \<and> \<not> ?n)"
  proof (cases "succeeds ?g st")
    case True
    with a show ?thesis by simp
  next
    case False
    with b show ?thesis by (cases ?n) simp_all
  qed
  from a b d show "(succeeds ?g st \<longrightarrow>
        fst (resetPage p st) = Inr p \<and>
        trace (snd (resetPage p st)) = trace st @ [?g]) \<and>
     (\<not> succeeds ?g st \<longrightarrow>
        (?n \<longrightarrow>
           fst (resetPage p st) = Inr (length (pages st)) \<and>
           trace (snd (resetPage p st)) = trace st @
             [?g, ClosePage p, NewPage (browser (heap st r))] \<and>
           page_isClosed p (snd (resetPage p st)) \<and>
           pages (snd (resetPage p st)) ! length (pages st) = securedPage (browser (heap st r))) \<and>
        (\<not> ?n \<longrightarrow>
           fst (resetPage p st) = Inl (NewPageError (browser (heap st r))) \<and>
           trace (snd (resetPage p st)) = trace st @
             [?g, ClosePage p, NewPage (browser (heap st r)),
              Log Error FailedToCreateAfterReset])) \<and>
     ((\<exists>e. fst (resetPage p st) = Inl e) = (\<not> succeeds ?g st \<and> \<not> ?n))"
    by blast
  qed
qed

theorem resetPage_outcomes_witness:
  "fst (returnPage_begin 9 (poolState 9 (\<lambda>h c. True))) = Some (PendingReturn 0 0 9 (Inr ())) \<and>
   findInstanceByPage 9 (poolState 9 (\<lambda>h c. True)) = Some 0 \<and>
   fst (resetPage 9 (poolState 9 (\<lambda>h c. True))) = Inr 9 \<and>
   trace (snd (resetPage 9 (poolState 9 (\<lambda>h c. True)))) = [Goto 9 ''about:blank'' (Some 500)] \<and>
   findInstanceByPage 9 (poolState 9 (\<lambda>h c. \<not> isGoto c)) = Some 0 \<and>
   fst (resetPage 9 (poolState 9 (\<lambda>h c. \<not> isGoto c))) = Inr 11 \<and>
   page_isClosed 9 (snd (resetPage 9 (poolState 9 (\<lambda>h c. \<not> isGoto c)))) \<and>
   pages (snd (resetPage 9 (poolState 9 (\<lambda>h c. \<not> isGoto c)))) ! 11 = securedPage 0 \<and>
   findInstanceByPage 9 (poolState 9 (\<lambda>h c. False)) = Some 0 \<and>
   fst (resetPage 9 (poolState 9 (\<lambda>h c. False))) = Inl (NewPageError 0) \<and>
   trace (snd (resetPage 9 (poolState 9 (\<lambda>h c. False)))) =
     [Goto 9 ''about:blank'' (Some 500), ClosePage 9, NewPage 0,
      Log Error FailedToCreateAfterReset]"
proof -
  have own: "findInstanceByPage 9 (poolState 9 f) = Some 0" for f
    by (simp add: findInstanceByPage_def scenario_defs map_defs nth_append)
  have len: "length (pages (poolState 9 f)) = 11" for f
    by (simp add: scenario_defs)
  have hp: "browser (heap (poolState 9 f) 0) = 0" for f
    by (simp add: scenario_defs)
  have out: "outcome (poolState 9 f) = f" "trace (poolState 9 f) = []" for f
    by (simp_all add: scenario_defs)
  have b: "fst (returnPage_begin 9 (poolState 9 (\<lambda>h c. True))) =
             Some (PendingReturn 0 0 9 (Inr ()))"
    using returnPage_begin_room [of 9 "poolState 9 (\<lambda>h c. True)" 0]
    by (simp add: poolState_facts PAGE_POOL_SIZE_def succeeds_def)
  have w1: "findInstanceByPage 9 (poolState 9 (\<lambda>h c. True)) = Some 0"
    using resetPage_outcomes [of 9 "poolState 9 (\<lambda>h c. True)" 0 0 9 "Inr ()"] b
    by simp
  have w2: "fst (resetPage 9 (poolState 9 (\<lambda>h c. True))) = Inr 9 \<and>
     trace (snd (resetPage 9 (poolState 9 (\<lambda>h c. True)))) = [Goto 9 ''about:blank'' (Some 500)]"
    using resetPage_outcomes [of 9 "poolState 9 (\<lambda>h c. True)" _ _ _ _ 0]
    by (simp add: own succeeds_def out)
  have w3: "fst (resetPage 9 (poolState 9 (\<lambda>h c. \<not> isGoto c))) = Inr 11 \<and>
            page_isClosed 9 (snd (resetPage 9 (poolState 9 (\<lambda>h c. \<not> isGoto c)))) \<and>
            pages (snd (resetPage 9 (poolState 9 (\<lambda>h c. \<not> isGoto c)))) ! 11 = securedPage 0"
    using resetPage_outcomes [of 9 "poolState 9 (\<lambda>h c. \<not> isGoto c)" _ _ _ _ 0]
    by (simp add: own succeeds_def out len hp)
  have w4: "fst (resetPage 9 (poolState 9 (\<lambda>h c. False))) = Inl (NewPageError 0) \<and>
     trace (snd (resetPage 9 (poolState 9 (\<lambda>h c. False)))) =
     [Goto 9 ''about:blank'' (Some 500), ClosePage 9, NewPage 0,
      Log Error FailedToCreateAfterReset]"
    using resetPage_outcomes [of 9 "poolState 9 (\<lambda>h c. False)" _ _ _ _ 0]
    by (simp add: own succeeds_def out hp)
  show ?thesis
    using b w1 w2 w3 w4 own by simp
qed

subsection \<open>C9: the endpoint variable set to the empty string\<close>

text \<open>
  Claim C9. \<^verbatim>\<open>initializeConnections\<close> raises the no-endpoints error exactly when the
  variable \<^verbatim>\<open>BROWSER_ENDPOINTS\<close> is absent. When it is set to the empty string, the
  endpoint list is the single empty string, exactly one connection is attempted, to
  the empty endpoint, and if that attempt fails the last thing done is to log the
  failure for that endpoint.
\<close>

theorem empty_endpoint_variable:
  "(fst (initializeConnections st) = Inl NoEndpointsConfigured) = (BROWSER_ENDPOINTS st = None) \<and>
   (BROWSER_ENDPOINTS st = Some '''' \<longrightarrow>
      getEndpoints st = [''''] \<and>
      connects (trace (snd (initializeConnections st))) = connects (trace st) @ [''''] \<and>
      (fst (connectToBrowser '''' st) \<noteq> Inr () \<longrightarrow>
         last (trace (snd (initializeConnections st))) = Log Error (FailedToConnect '''')))"
proof (intro conjI impI)
  show "(fst (initializeConnections st) = Inl NoEndpointsConfigured) = (BROWSER_ENDPOINTS st = None)"
    using getEndpoints_empty_iff [of st]
    by (auto simp: initializeConnections_def Let_def)
next
  assume e: "BROWSER_ENDPOINTS st = Some ''''"
  then show g: "getEndpoints st = ['''']"
    by (simp add: getEndpoints_def)
  show "connects (trace (snd (initializeConnections st))) = connects (trace st) @ ['''']"
    using g connectEach_connects [of "['''']" st]
    by (simp add: initializeConnections_def Let_def del: connectEach.simps)
  assume f: "fst (connectToBrowser '''' st) \<noteq> Inr ()"
  then show "last (trace (snd (initializeConnections st))) = Log Error (FailedToConnect '''')"
    using g
    by (auto simp: initializeConnections_def Let_def logger_def emit_def
        split: prod.splits sum.splits)
qed

theorem empty_endpoint_variable_witness:
  "BROWSER_ENDPOINTS (freshManager (\<lambda>h c. False) (Some '''')) = Some '''' \<and>
   fst (connectToBrowser '''' (freshManager (\<lambda>h c. False) (Some ''''))) \<noteq> Inr () \<and>
   fst (initializeConnections (freshManager (\<lambda>h c. False) (Some ''''))) \<noteq> Inl NoEndpointsConfigured \<and>
   connects (trace (snd (initializeConnections (freshManager (\<lambda>h c. False) (Some ''''))))) = [''''] \<and>
   last (trace (snd (initializeConnections (freshManager (\<lambda>h c. False) (Some ''''))))) =
     Log Error (FailedToConnect '''')"
proof -
  let ?st = "freshManager (\<lambda>h c. False) (Some '''')"
  have a: "BROWSER_ENDPOINTS ?st = Some ''''"
    by (simp add: freshManager_def)
  have b: "fst (connectToBrowser '''' ?st) \<noteq> Inr ()"
    by (simp add: freshManager_def world_defs map_defs manager_defs cong: let_weak_cong)
  have c: "connects (trace ?st) = []"
    by (simp add: freshManager_def)
  from empty_endpoint_variable [of ?st] a b c show ?thesis by simp
qed

subsection \<open>C10: the page pooled after a failed reset is a new one\<close>

text \<open>
  Claim C10. When the owner's pool has room, the navigation to the blank page fails and
  the replacement is created, \<^verbatim>\<open>returnPage\<close> appends to the pool a page that did not
  exist before (so it is not the returned page), open and hardened, of the owner's
  browser; the returned page is closed; the pool grows by exactly one.
\<close>

theorem returnPage_replaces_page:
  assumes "findInstanceByPage p st = Some r"
    and "length (pagePool (heap st r)) < PAGE_POOL_SIZE"
    and "\<not> succeeds (Goto p ''about:blank'' (Some 500)) st"
    and "outcome st (trace st @ [Goto p ''about:blank'' (Some 500), ClosePage p])
           (NewPage (browser (heap st r)))"
  shows "pagePool (heap (snd (returnPage p st)) r) = pagePool (heap st r) @ [length (pages st)] \<and>
         length (pagePool (heap (snd (returnPage p st)) r)) = length (pagePool (heap st r)) + 1 \<and>
         length (pages st) \<noteq> p \<and>
         page_isClosed p (snd (returnPage p st)) \<and>
         \<not> page_isClosed (length (pages st)) (snd (returnPage p st)) \<and>
         pages (snd (returnPage p st)) ! length (pages st) = securedPage (browser (heap st r))"
proof -
  let ?q = "length (pages st)"
  let ?st1 = "snd (resetPage p st)"
  from resetPage_cases [of p st] assms
  have q: "fst (resetPage p st) = Inr ?q"
    and cl: "page_isClosed p ?st1"
    and pg: "pages ?st1 ! ?q = securedPage (browser (heap st r))"
    and tr: "trace ?st1 = trace st @
              [Goto p ''about:blank'' (Some 500), ClosePage p, NewPage (browser (heap st r))]"
    by simp_all
  have st': "snd (returnPage p st) =
      ?st1\<lparr>heap := (heap ?st1)(r := (heap ?st1 r)\<lparr>pagePool := pagePool (heap ?st1 r) @ [?q]\<rparr>)\<rparr>"
    using assms(1,2) by (simp add: returnPage_def returnPage_try_def case_prod_unfold q)
  have valid: "p < ?q"
    using findInstanceByPage_valid [OF assms(1)] .
  have len1: "length (pages ?st1) = Suc ?q"
    using assms(1,3,4)
    by (simp add: resetPage_def page_goto_def Let_def page_close_heap emit_def
        createAndSecurePage_new succeeds_def page_close_def)
  show ?thesis
    using valid cl pg len1
    by (simp add: st' resetPage_heap page_isClosed_def securedPage_def)
qed

theorem returnPage_replaces_page_witness:
  "findInstanceByPage 9 (poolState 9 (\<lambda>h c. \<not> isGoto c)) = Some 0 \<and>
   length (pagePool (heap (poolState 9 (\<lambda>h c. \<not> isGoto c)) 0)) < PAGE_POOL_SIZE \<and>
   \<not> succeeds (Goto 9 ''about:blank'' (Some 500)) (poolState 9 (\<lambda>h c. \<not> isGoto c)) \<and>
   pagePool (heap (snd (returnPage 9 (poolState 9 (\<lambda>h c. \<not> isGoto c)))) 0) =
     [0, 1, 2, 3, 4, 5, 6, 7, 8, 11] \<and>
   page_isClosed 9 (snd (returnPage 9 (poolState 9 (\<lambda>h c. \<not> isGoto c)))) \<and>
   \<not> page_isClosed 11 (snd (returnPage 9 (poolState 9 (\<lambda>h c. \<not> isGoto c))))"
proof -
  let ?S = "poolState 9 (\<lambda>h c. \<not> isGoto c)"
  have own: "findInstanceByPage 9 ?S = Some 0"
    by (rule poolState_facts)
  have room: "length (pagePool (heap ?S 0)) < PAGE_POOL_SIZE"
    by (simp add: poolState_facts PAGE_POOL_SIZE_def)
  have nav: "\<not> succeeds (Goto 9 ''about:blank'' (Some 500)) ?S"
    by (simp add: succeeds_def poolState_facts)
  have new: "outcome ?S (trace ?S @ [Goto 9 ''about:blank'' (Some 500), ClosePage 9])
               (NewPage (browser (heap ?S 0)))"
    by (simp add: poolState_facts)
  have pool: "[0..<9] = [0, 1, 2, 3, 4, 5, 6, 7, 8::nat]"
    by (simp add: upt_rec)
  from returnPage_replaces_page [OF own room nav new] own room nav
  show ?thesis
    by (simp add: poolState_facts pool)
qed

end
